theory Spec2Isabelle
  imports Main "HOL-Library.Sublist" "HOL-Library.Word"
begin

section \<open>Strings, bytes and the character tables\<close>

text \<open>
  A Python \<open>str\<close> is a sequence of Unicode code points, so a character is a natural
  number and a string a list of them. \<open>ustr\<close> writes an ASCII literal; characters
  outside ASCII are written by their code point.
\<close>

type_synonym ustring = "nat list"
type_synonym bytes = "8 word list"

definition ustr :: "string \<Rightarrow> ustring" where
  "ustr s = map of_char s"

text \<open>
  \<open>str.isspace\<close>, \<open>str.strip\<close> and the class \<open>\s\<close> of \<open>re\<close> on \<open>str\<close> patterns all
  use CPython's one whitespace set: U+0009..U+000D, U+001C..U+0020, U+0085, U+00A0, U+1680,
  U+2000..U+200A, U+2028, U+2029, U+202F, U+205F, U+3000.
\<close>

definition isspace :: "nat \<Rightarrow> bool" where
  "isspace c \<longleftrightarrow>
     (9 \<le> c \<and> c \<le> 13) \<or> (28 \<le> c \<and> c \<le> 32) \<or> c = 133 \<or> c = 160 \<or> c = 5760 \<or>
     (8192 \<le> c \<and> c \<le> 8202) \<or> c = 8232 \<or> c = 8233 \<or> c = 8239 \<or> c = 8287 \<or> c = 12288"

text \<open>
  The remaining tables of the Unicode database are not part of the repository and are
  parameters of the model: the decimal digits (\<open>\d\<close>), the word characters (\<open>\w\<close>, which
  decides \<open>\b\<close>), which character a pattern letter matches under \<open>re.IGNORECASE\<close>, and
  the string functions \<open>str.upper\<close> and \<open>str.lower\<close>.
\<close>

record unicode_tables =
  is_decimal :: "nat \<Rightarrow> bool"
  is_word :: "nat \<Rightarrow> bool"
  ci_match :: "nat \<Rightarrow> nat \<Rightarrow> bool"
  str_upper :: "ustring \<Rightarrow> ustring"
  str_lower :: "ustring \<Rightarrow> ustring"

text \<open>The tables restricted to ASCII: what every Unicode version says about ASCII text.\<close>

definition ascii_lower :: "nat \<Rightarrow> nat" where
  "ascii_lower c = (if 65 \<le> c \<and> c \<le> 90 then c + 32 else c)"

definition ascii_upper :: "nat \<Rightarrow> nat" where
  "ascii_upper c = (if 97 \<le> c \<and> c \<le> 122 then c - 32 else c)"

definition ascii_digit :: "nat \<Rightarrow> bool" where
  "ascii_digit c \<longleftrightarrow> 48 \<le> c \<and> c \<le> 57"

definition ascii_word :: "nat \<Rightarrow> bool" where
  "ascii_word c \<longleftrightarrow> ascii_digit c \<or> (65 \<le> c \<and> c \<le> 90) \<or> (97 \<le> c \<and> c \<le> 122) \<or> c = 95"

definition ascii_tables :: unicode_tables where
  "ascii_tables = \<lparr> is_decimal = ascii_digit, is_word = ascii_word,
     ci_match = (\<lambda>p c. ascii_lower c = ascii_lower p),
     str_upper = map ascii_upper, str_lower = map ascii_lower \<rparr>"

section \<open>The regular expressions of \<open>re\<close>, as a backtracking matcher\<close>

text \<open>
  The patterns of renamer.py use literals (some under \<open>re.IGNORECASE\<close>), character sets
  made of characters, \<open>\s\<close> and \<open>\d\<close>, negated sets, \<open>\b\<close>, one group per pattern, and
  greedy and lazy repetition of a single-character item. \<open>Rep lo hi a\<close> is \<open>a{lo,hi}\<close>
  with \<open>None\<close> for no upper bound, \<open>RepLazy\<close> its lazy form.
\<close>

datatype citem = Ch nat | Space | Digit

datatype atom = Lit nat | LitI nat | In "citem list" | NotIn "citem list"

datatype re = A atom | Rep nat "nat option" atom | RepLazy nat "nat option" atom
  | WordB | Eps | Seq re re | Group re

fun citem_match :: "unicode_tables \<Rightarrow> citem \<Rightarrow> nat \<Rightarrow> bool" where
  "citem_match U (Ch c) x = (x = c)"
| "citem_match U Space x = isspace x"
| "citem_match U Digit x = is_decimal U x"

fun atom_match :: "unicode_tables \<Rightarrow> atom \<Rightarrow> nat \<Rightarrow> bool" where
  "atom_match U (Lit c) x = (x = c)"
| "atom_match U (LitI c) x = ci_match U c x"
| "atom_match U (In cs) x = list_ex (\<lambda>i. citem_match U i x) cs"
| "atom_match U (NotIn cs) x = (\<not> list_ex (\<lambda>i. citem_match U i x) cs)"

text \<open>
  A matcher state is the character before the position (none at the start of the string),
  the text from the position on, and the text of the group if it has matched. The matcher
  returns every way the pattern matches from a state, in the order in which backtracking
  tries them; Python's match is the first.
\<close>

type_synonym mstate = "nat option \<times> ustring \<times> ustring option"

fun rep_greedy :: "unicode_tables \<Rightarrow> atom \<Rightarrow> nat \<Rightarrow> nat option \<Rightarrow> nat option \<Rightarrow> ustring
    \<Rightarrow> (nat option \<times> ustring) list" where
  "rep_greedy U a lo hi prev [] = (if lo = 0 then [(prev, [])] else [])"
| "rep_greedy U a lo hi prev (x # xs) =
     (if hi \<noteq> Some 0 \<and> atom_match U a x
      then rep_greedy U a (lo - 1) (map_option (\<lambda>h. h - 1) hi) (Some x) xs else [])
     @ (if lo = 0 then [(prev, x # xs)] else [])"

fun rep_lazy :: "unicode_tables \<Rightarrow> atom \<Rightarrow> nat \<Rightarrow> nat option \<Rightarrow> nat option \<Rightarrow> ustring
    \<Rightarrow> (nat option \<times> ustring) list" where
  "rep_lazy U a lo hi prev [] = (if lo = 0 then [(prev, [])] else [])"
| "rep_lazy U a lo hi prev (x # xs) =
     (if lo = 0 then [(prev, x # xs)] else [])
     @ (if hi \<noteq> Some 0 \<and> atom_match U a x
        then rep_lazy U a (lo - 1) (map_option (\<lambda>h. h - 1) hi) (Some x) xs else [])"

definition at_boundary :: "unicode_tables \<Rightarrow> nat option \<Rightarrow> ustring \<Rightarrow> bool" where
  "at_boundary U prev rest \<longleftrightarrow>
     (case prev of None \<Rightarrow> False | Some p \<Rightarrow> is_word U p)
     \<noteq> (case rest of [] \<Rightarrow> False | x # _ \<Rightarrow> is_word U x)"

fun rmatch :: "unicode_tables \<Rightarrow> re \<Rightarrow> mstate \<Rightarrow> mstate list" where
  "rmatch U (A a) (prev, rest, g) =
     (case rest of [] \<Rightarrow> [] | x # xs \<Rightarrow> if atom_match U a x then [(Some x, xs, g)] else [])"
| "rmatch U (Rep lo hi a) (prev, rest, g) =
     map (\<lambda>(p, r). (p, r, g)) (rep_greedy U a lo hi prev rest)"
| "rmatch U (RepLazy lo hi a) (prev, rest, g) =
     map (\<lambda>(p, r). (p, r, g)) (rep_lazy U a lo hi prev rest)"
| "rmatch U WordB (prev, rest, g) = (if at_boundary U prev rest then [(prev, rest, g)] else [])"
| "rmatch U Eps st = [st]"
| "rmatch U (Seq r1 r2) st = concat (map (rmatch U r2) (rmatch U r1 st))"
| "rmatch U (Group r) (prev, rest, g) =
     map (\<lambda>(p, rest', g'). (p, rest', Some (take (length rest - length rest') rest)))
       (rmatch U r (prev, rest, g))"

definition seqs :: "re list \<Rightarrow> re" where
  "seqs rs = foldr Seq rs Eps"

definition lits_i :: "string \<Rightarrow> re list" where
  "lits_i s = map (\<lambda>c. A (LitI (of_char c))) s"

text \<open>
  \<open>first_match\<close> is the scan of \<open>Pattern.search\<close>: the first position from the current
  one at which the pattern matches, with the text skipped before it and the state after
  the match. With \<open>adv\<close> set, an empty match at the first position does not count (the
  \<open>must_advance\<close> flag that \<open>re.sub\<close> sets after an empty match).
\<close>

fun first_match :: "unicode_tables \<Rightarrow> re \<Rightarrow> bool \<Rightarrow> nat option \<Rightarrow> ustring
    \<Rightarrow> (ustring \<times> mstate) option" where
  "first_match U r adv prev rest =
     (case filter (\<lambda>(p, rest', g). \<not> adv \<or> rest' \<noteq> rest) (rmatch U r (prev, rest, None)) of
        st # _ \<Rightarrow> Some ([], st)
      | [] \<Rightarrow> (case rest of [] \<Rightarrow> None
              | x # xs \<Rightarrow> map_option (\<lambda>(skipped, st). (x # skipped, st))
                           (first_match U r False (Some x) xs)))"

text \<open>
  \<open>Pattern.search\<close> on a whole string: the text of the first match, \<open>group(0)\<close>, and the
  text of its group.
\<close>

record rematch =
  group0 :: ustring
  group1 :: "ustring option"

definition re_search :: "unicode_tables \<Rightarrow> re \<Rightarrow> ustring \<Rightarrow> rematch option" where
  "re_search U r s =
     (case first_match U r False None s of None \<Rightarrow> None
      | Some (skipped, (p, rest', g)) \<Rightarrow>
          Some \<lparr> group0 = take (length s - length skipped - length rest') (drop (length skipped) s),
                 group1 = g \<rparr>)"

text \<open>Every match ends inside the text it started from.\<close>

lemma rep_greedy_suffix:
  "(p, r) \<in> set (rep_greedy U a lo hi prev rest) \<Longrightarrow> suffix r rest"
proof (induction rest arbitrary: lo hi prev)
  case Nil
  then show ?case by (simp split: if_splits)
next
  case (Cons x xs)
  then show ?case by (fastforce split: if_splits intro: suffix_ConsI)
qed

lemma rep_lazy_suffix:
  "(p, r) \<in> set (rep_lazy U a lo hi prev rest) \<Longrightarrow> suffix r rest"
proof (induction rest arbitrary: lo hi prev)
  case Nil
  then show ?case by (simp split: if_splits)
next
  case (Cons x xs)
  then show ?case by (fastforce split: if_splits intro: suffix_ConsI)
qed

lemma rmatch_suffix:
  "(p, r, g) \<in> set (rmatch U e (prev, rest, g0)) \<Longrightarrow> suffix r rest"
proof (induction e arbitrary: p r g prev rest g0)
  case (A a)
  then show ?case by (auto split: list.splits if_splits intro: suffix_ConsI)
next
  case (Rep lo hi a)
  then show ?case by (auto dest: rep_greedy_suffix)
next
  case (RepLazy lo hi a)
  then show ?case by (auto dest: rep_lazy_suffix)
next
  case WordB
  then show ?case by (auto split: if_splits)
next
  case Eps
  then show ?case by simp
next
  case (Seq e1 e2)
  from Seq.prems obtain p1 r1 g1 where
    m1: "(p1, r1, g1) \<in> set (rmatch U e1 (prev, rest, g0))" and
    m2: "(p, r, g) \<in> set (rmatch U e2 (p1, r1, g1))"
    by auto
  from Seq.IH(1)[OF m1] Seq.IH(2)[OF m2] show ?case
    by (rule suffix_order.trans[rotated])
next
  case (Group e)
  then show ?case by auto
qed

lemma first_match_hit:
  assumes "filter (\<lambda>(p, rest', g). \<not> adv \<or> rest' \<noteq> rest) (rmatch U r (prev, rest, None))
           = (p, rest', g) # sts"
  shows "length rest' \<le> length rest \<and> (adv \<longrightarrow> length rest' < length rest)"
proof -
  have "(p, rest', g) \<in> set (filter (\<lambda>(p, rest', g). \<not> adv \<or> rest' \<noteq> rest)
          (rmatch U r (prev, rest, None)))"
    using assms by simp
  then have mem: "(p, rest', g) \<in> set (rmatch U r (prev, rest, None))"
    and ne: "\<not> adv \<or> rest' \<noteq> rest"
    by auto
  from rmatch_suffix[OF mem] obtain zs where zs: "rest = zs @ rest'"
    by (auto simp: suffix_def)
  with ne have "adv \<longrightarrow> zs \<noteq> []" by auto
  with zs show ?thesis by auto
qed

lemma first_match_length:
  "first_match U r adv prev rest = Some (skipped, (p, rest', g)) \<Longrightarrow>
     length skipped + length rest' \<le> length rest \<and>
     (adv \<and> skipped = [] \<longrightarrow> length rest' < length rest)"
proof (induction rest arbitrary: adv prev skipped)
  case Nil
  show ?case
  proof (cases "filter (\<lambda>(p, rest', g). \<not> adv \<or> rest' \<noteq> []) (rmatch U r (prev, [], None))")
    case Nil
    with Nil.prems show ?thesis by simp
  next
    case (Cons st sts)
    with Nil.prems have sk: "skipped = []" and st: "st = (p, rest', g)" by auto
    from first_match_hit[OF Cons[unfolded st]] sk show ?thesis by simp
  qed
next
  case (Cons x xs)
  show ?case
  proof (cases "filter (\<lambda>(p, rest', g). \<not> adv \<or> rest' \<noteq> x # xs) (rmatch U r (prev, x # xs, None))")
    case Nil
    with Cons.prems obtain sk where
      sk: "first_match U r False (Some x) xs = Some (sk, (p, rest', g))" and "skipped = x # sk"
      by (auto simp del: first_match.simps simp add: first_match.simps[of U r adv prev "x # xs"])
    with Cons.IH[OF sk] show ?thesis by simp
  next
    case (Cons st sts)
    with Cons.prems have sk: "skipped = []" and st: "st = (p, rest', g)"
      by (auto simp del: first_match.simps simp add: first_match.simps[of U r adv prev "x # xs"])
    from first_match_hit[OF Cons[unfolded st]] sk show ?thesis by simp
  qed
qed

text \<open>
  \<open>re.sub\<close> (\<open>pattern_subx\<close> of CPython): search from the end of the last match, copy the
  skipped text, append the replacement, go on after the match; after an empty match the
  next search must advance. \<open>py_sub\<close> is the call on a whole string.
\<close>

function re_sub :: "unicode_tables \<Rightarrow> re \<Rightarrow> ustring \<Rightarrow> bool \<Rightarrow> nat option \<Rightarrow> ustring \<Rightarrow> ustring" where
  "re_sub U r repl adv prev rest =
     (case first_match U r adv prev rest of
        None \<Rightarrow> rest
      | Some (skipped, (p, rest', g)) \<Rightarrow>
          skipped @ repl @ re_sub U r repl (length skipped + length rest' = length rest) p rest')"
  by pat_completeness auto
termination
proof (relation "measure (\<lambda>(U, r, repl, adv, prev, rest). 2 * length rest + (if adv then 0 else 1))")
  show "wf (measure (\<lambda>(U, r, repl, adv, prev, rest). 2 * length rest + (if adv then 0 else 1)))"
    by simp
next
  fix U r repl adv prev rest x2 skipped y p z rest' g
  assume "first_match U r adv prev rest = Some x2" "(skipped, y) = x2" "(p, z) = y" "(rest', g) = z"
  then have "first_match U r adv prev rest = Some (skipped, (p, rest', g))" by simp
  from first_match_length[OF this]
  show "((U, r, repl, length skipped + length rest' = length rest, p, rest'),
         (U, r, repl, adv, prev, rest))
        \<in> measure (\<lambda>(U, r, repl, adv, prev, rest). 2 * length rest + (if adv then 0 else 1))"
    by (cases skipped) auto
qed

definition py_sub :: "unicode_tables \<Rightarrow> re \<Rightarrow> ustring \<Rightarrow> ustring \<Rightarrow> ustring" where
  "py_sub U r repl s = re_sub U r repl False None s"

section \<open>String methods\<close>

definition strip :: "ustring \<Rightarrow> ustring" where
  "strip s = rev (dropWhile isspace (rev (dropWhile isspace s)))"

text \<open>\<open>str.replace\<close> with a one-character search string.\<close>

definition replace_char :: "nat \<Rightarrow> ustring \<Rightarrow> ustring \<Rightarrow> ustring" where
  "replace_char c new s = concat (map (\<lambda>x. if x = c then new else [x]) s)"

fun join :: "ustring \<Rightarrow> ustring list \<Rightarrow> ustring" where
  "join sep [] = []"
| "join sep [x] = x"
| "join sep (x # y # ys) = x @ sep @ join sep (y # ys)"

definition endswith :: "ustring \<Rightarrow> ustring \<Rightarrow> bool" where
  "endswith s suf = suffix suf s"

text \<open>Truthiness of an \<open>Optional[str]\<close>, and \<open>x or None\<close>.\<close>

definition truthy :: "ustring option \<Rightarrow> bool" where
  "truthy x = (case x of None \<Rightarrow> False | Some s \<Rightarrow> s \<noteq> [])"

definition or_none :: "ustring option \<Rightarrow> ustring option" where
  "or_none x = (if truthy x then x else None)"

section \<open>renamer.py\<close>

subsection \<open>The patterns\<close>

text \<open>
  \<^verbatim>\<open>RE_REF = re.compile(r"\(?\s*Referensi:?\s*(?P<ref>[^)\n\r]+?)\s*\)?", re.IGNORECASE)\<close>
  Under \<open>re.IGNORECASE\<close> the letters are matched ignoring case; the other literals and
  the sets hold no cased character and match as they are.
\<close>

definition RE_REF :: re where
  "RE_REF = seqs ([Rep 0 (Some 1) (Lit (of_char CHR ''('')), Rep 0 None (In [Space])]
     @ lits_i ''Referensi''
     @ [Rep 0 (Some 1) (Lit (of_char CHR '':'')), Rep 0 None (In [Space]),
        Group (RepLazy 1 None (NotIn [Ch (of_char CHR '')''), Ch 10, Ch 13])),
        Rep 0 None (In [Space]), Rep 0 (Some 1) (Lit (of_char CHR '')''))])"

text \<open>
  \<^verbatim>\<open>RE_SERI = re.compile(
    r"Kode\s+dan\s+Nomor\s+Seri\s+Faktur\s+Pajak\s*:\s*(?P<seri>[\d\.\-\s]+)", re.IGNORECASE)\<close>
\<close>

definition RE_SERI :: re where
  "RE_SERI = seqs (lits_i ''Kode'' @ [Rep 1 None (In [Space])]
     @ lits_i ''dan'' @ [Rep 1 None (In [Space])]
     @ lits_i ''Nomor'' @ [Rep 1 None (In [Space])]
     @ lits_i ''Seri'' @ [Rep 1 None (In [Space])]
     @ lits_i ''Faktur'' @ [Rep 1 None (In [Space])]
     @ lits_i ''Pajak''
     @ [Rep 0 None (In [Space]), A (Lit (of_char CHR '':'')), Rep 0 None (In [Space]),
        Group (Rep 1 None (In [Digit, Ch (of_char CHR ''.''), Ch (of_char CHR ''-''), Space]))])"

text \<open>\<^verbatim>\<open>RE_INV_STRICT = re.compile(r"\bINV/\d{4}/\d{2}/\d{4}\b", re.IGNORECASE)\<close>\<close>

definition RE_INV_STRICT :: re where
  "RE_INV_STRICT = seqs ([WordB] @ lits_i ''INV''
     @ [A (Lit (of_char CHR ''/'')), Rep 4 (Some 4) (In [Digit]),
        A (Lit (of_char CHR ''/'')), Rep 2 (Some 2) (In [Digit]),
        A (Lit (of_char CHR ''/'')), Rep 4 (Some 4) (In [Digit]), WordB])"

text \<open>
  The text of the named group of a match. Each of the two patterns with a group has it
  outside any optional part, so a match always carries it (\<open>RE_SERI_group\<close> and
  \<open>RE_REF_group\<close> below).
\<close>

definition group_text :: "rematch \<Rightarrow> ustring" where
  "group_text m = (case group1 m of Some g \<Rightarrow> g | None \<Rightarrow> [])"

subsection \<open>The helpers\<close>

text \<open>
  \<^verbatim>\<open>def _sanitize(s):
    s = s.strip()
    s = re.sub(r"[\\/:\*\?\"<>\|\r\n\t]", " ", s)
    s = re.sub(r"\s+", " ", s)
    return s\<close>
  The set holds the characters \<open>\ / : * ? " < > |\<close>, CR, LF and TAB.
\<close>

definition illegal_chars :: "nat list" where
  "illegal_chars = [92, 47, 58, 42, 63, 34, 60, 62, 124, 13, 10, 9]"

definition sanitize :: "unicode_tables \<Rightarrow> ustring \<Rightarrow> ustring" where
  "sanitize U s =
     (let s = strip s;
          s = py_sub U (A (In (map Ch illegal_chars))) (ustr '' '') s;
          s = py_sub U (Rep 1 None (In [Space])) (ustr '' '') s
      in s)"

text \<open>
  \<^verbatim>\<open>def _normalize_for_search(s):
    s = re.sub(r"\s+", " ", s)
    s = re.sub(r"\s*/\s*", "/", s)
    return s\<close>
\<close>

definition normalize_for_search :: "unicode_tables \<Rightarrow> ustring \<Rightarrow> ustring" where
  "normalize_for_search U s =
     (let s = py_sub U (Rep 1 None (In [Space])) (ustr '' '') s;
          s = py_sub U (seqs [Rep 0 None (In [Space]), A (Lit (of_char CHR ''/'')),
                              Rep 0 None (In [Space])]) (ustr ''/'') s
      in s)"

text \<open>
  \<^verbatim>\<open>def _invoice_ref_to_filename(ref, allow_unicode_slash=True):
    return ref.replace("/", "\<dots>") if allow_unicode_slash else ref.replace("/", "-")\<close>
  where the first replacement is the one character FULLWIDTH SOLIDUS, U+FF0F.
\<close>

definition fullwidth_slash :: nat where
  "fullwidth_slash = 65295"

definition invoice_ref_to_filename :: "ustring \<Rightarrow> bool \<Rightarrow> ustring" where
  "invoice_ref_to_filename ref allow_unicode_slash =
     (if allow_unicode_slash then replace_char (of_char CHR ''/'') [fullwidth_slash] ref
      else replace_char (of_char CHR ''/'') (ustr ''-'') ref)"

subsection \<open>\<open>parse_pdf_fields\<close>\<close>

text \<open>
  The part of \<open>parse_pdf_fields\<close> after the text has been read: the serial number, the
  reference by its two tiers, and the final \<open>_invoice_ref_to_filename(_sanitize(ref))\<close>.
\<close>

definition extract_seri :: "unicode_tables \<Rightarrow> ustring \<Rightarrow> ustring option" where
  "extract_seri U norm =
     (case re_search U RE_SERI norm of
        None \<Rightarrow> None
      | Some m_seri \<Rightarrow>
          (let seri = group_text m_seri;
               seri = py_sub U (A (NotIn [Digit, Ch (of_char CHR ''.''), Ch (of_char CHR ''-'')])) [] seri;
               seri = replace_char (of_char CHR ''-'') [] (replace_char (of_char CHR ''.'') [] seri);
               seri = sanitize U seri
           in Some seri))"

definition extract_ref :: "unicode_tables \<Rightarrow> ustring \<Rightarrow> ustring option" where
  "extract_ref U norm =
     (case re_search U RE_INV_STRICT norm of
        Some m_inv \<Rightarrow> Some (str_upper U (group0 m_inv))
      | None \<Rightarrow>
          (case re_search U RE_REF norm of
             None \<Rightarrow> None
           | Some m_ref \<Rightarrow>
               (let candidate = sanitize U (group_text m_ref) in
                case re_search U RE_INV_STRICT candidate of
                  Some inner \<Rightarrow> Some (str_upper U (group0 inner))
                | None \<Rightarrow> Some candidate)))"

definition parse_text :: "unicode_tables \<Rightarrow> ustring \<Rightarrow> ustring option \<times> ustring option" where
  "parse_text U raw =
     (let norm = normalize_for_search U raw;
          seri = extract_seri U norm;
          ref = extract_ref U norm;
          ref = (case ref of
                   Some r \<Rightarrow> if r \<noteq> [] then Some (invoice_ref_to_filename (sanitize U r) True)
                             else ref
                 | None \<Rightarrow> ref)
      in (or_none ref, or_none seri))"

text \<open>
  PyPDF2 is not part of the repository: \<open>read_pdf\<close> stands for \<open>PdfReader\<close> and
  \<open>extract_text\<close>. It gives the text of each page (\<open>None\<close> where \<open>extract_text\<close> returns
  nothing), or \<open>None\<close> when anything raises, which the \<open>except\<close> turns into
  \<open>(None, None)\<close>.
\<close>

type_synonym pdf_reader = "bytes \<Rightarrow> ustring option list option"

definition parse_pdf_fields :: "unicode_tables \<Rightarrow> pdf_reader \<Rightarrow> bytes
    \<Rightarrow> ustring option \<times> ustring option" where
  "parse_pdf_fields U read_pdf file_bytes =
     (case read_pdf file_bytes of
        None \<Rightarrow> (None, None)
      | Some pages \<Rightarrow>
          parse_text U (join [10] (map (\<lambda>p. case p of None \<Rightarrow> [] | Some t \<Rightarrow> t) pages)))"

subsection \<open>\<open>build_new_name\<close>\<close>

definition build_new_name :: "unicode_tables \<Rightarrow> ustring option \<Rightarrow> ustring option \<Rightarrow> bool
    \<Rightarrow> ustring option" where
  "build_new_name U ref seri pretty_slash =
     (if \<not> truthy ref \<or> \<not> truthy seri then None
      else case (ref, seri) of
        (Some r, Some s) \<Rightarrow>
          (let ref_disp = invoice_ref_to_filename (sanitize U r) pretty_slash;
               base = sanitize U (ref_disp @ ustr '' - '' @ s)
           in if base \<noteq> [] then Some (base @ ustr ''.pdf'') else None)
      | _ \<Rightarrow> None)"

subsection \<open>\<open>process_files\<close>\<close>

text \<open>\<open>str(i)\<close> for the counter of the collision loop: the decimal digits of \<open>i\<close>.\<close>

fun str_nat :: "nat \<Rightarrow> ustring" where
  "str_nat n = (if n < 10 then [48 + n] else str_nat (n div 10) @ [48 + n mod 10])"

declare str_nat.simps [simp del]

definition nat_of_str :: "ustring \<Rightarrow> nat" where
  "nat_of_str s = foldl (\<lambda>a d. 10 * a + (d - 48)) 0 s"

lemma nat_of_str_nat: "nat_of_str (str_nat n) = n"
proof (induction n rule: str_nat.induct)
  case (1 n)
  show ?case
  proof (cases "n < 10")
    case True
    then show ?thesis by (simp add: str_nat.simps[of n] nat_of_str_def)
  next
    case False
    with 1 have "nat_of_str (str_nat (n div 10)) = n div 10" by simp
    with False show ?thesis by (simp add: str_nat.simps[of n] nat_of_str_def)
  qed
qed

lemma inj_str_nat: "inj str_nat"
  by (rule inj_on_inverseI[where g = nat_of_str]) (rule nat_of_str_nat)

text \<open>
  \<open>os.path.splitext\<close> (\<open>genericpath._splitext\<close> with the separator \<open>/\<close>): split at the
  last dot if it comes after the last separator and some character between the two is
  not a dot; otherwise the extension is empty. \<open>rfind\<close> is \<open>str.rfind\<close> for one character,
  \<open>-1\<close> when it does not occur.
\<close>

definition rfind :: "nat \<Rightarrow> ustring \<Rightarrow> int" where
  "rfind c p = (if c \<in> set p
                then int (length p) - 1 - int (length (takeWhile (\<lambda>x. x \<noteq> c) (rev p)))
                else - 1)"

definition splitext :: "ustring \<Rightarrow> ustring \<times> ustring" where
  "splitext p =
     (let sepIndex = rfind (of_char CHR ''/'') p;
          dotIndex = rfind (of_char CHR ''.'') p
      in if dotIndex > sepIndex \<and>
            list_ex (\<lambda>x. x \<noteq> of_char CHR ''.'')
              (take (nat (dotIndex - (sepIndex + 1))) (drop (nat (sepIndex + 1)) p))
         then (take (nat dotIndex) p, drop (nat dotIndex) p)
         else (p, []))"

text \<open>
  The collision loop, entered with \<open>final = new_name\<close> and \<open>i = 1\<close>; \<open>existing\<close> lists
  the names of the set \<open>{n for n, _ in outputs}\<close>.
  \<^verbatim>\<open>while final in existing:
    stem, _ext = os.path.splitext(new_name)
    final = f"{stem} ({i}).pdf"
    i += 1\<close>
\<close>

definition suffixed :: "ustring \<Rightarrow> nat \<Rightarrow> ustring" where
  "suffixed new_name i = fst (splitext new_name) @ ustr '' ('' @ str_nat i @ ustr '').pdf''"

lemma inj_suffixed: "inj (suffixed new_name)"
  using inj_str_nat by (auto simp: inj_def suffixed_def)

lemma finite_suffixed: "finite {j. suffixed new_name j \<in> set existing}"
proof -
  have "finite (suffixed new_name -` set existing)"
    by (rule finite_vimageI[OF finite_set inj_suffixed])
  then show ?thesis by (simp add: vimage_def)
qed

function unique_name :: "ustring list \<Rightarrow> ustring \<Rightarrow> ustring \<Rightarrow> nat \<Rightarrow> ustring" where
  "unique_name existing new_name final i =
     (if final \<in> set existing
      then unique_name existing new_name (suffixed new_name i) (i + 1)
      else final)"
  by pat_completeness auto
termination
proof (relation "measure (\<lambda>(existing, new_name, final, i).
          2 * card {j. i \<le> j \<and> suffixed new_name j \<in> set existing}
          + (if final \<in> set existing then 1 else 0))")
  show "wf (measure (\<lambda>(existing, new_name, final, i).
          2 * card {j. i \<le> j \<and> suffixed new_name j \<in> set existing}
          + (if final \<in> set existing then 1 else 0)))"
    by simp
next
  fix existing :: "ustring list" and new_name final :: ustring and i :: nat
  assume "final \<in> set existing"
  let ?S = "\<lambda>k. {j. k \<le> j \<and> suffixed new_name j \<in> set existing}"
  have fin: "finite (?S i)"
    by (rule finite_subset[OF _ finite_suffixed[of new_name existing]]) auto
  have sub: "?S (i + 1) \<subseteq> ?S i" by auto
  have "suffixed new_name i \<in> set existing \<Longrightarrow> card (?S (i + 1)) < card (?S i)"
  proof -
    assume "suffixed new_name i \<in> set existing"
    then have "i \<in> ?S i" and "i \<notin> ?S (i + 1)" by auto
    with sub have "?S (i + 1) \<subset> ?S i" by blast
    with fin show ?thesis by (rule psubset_card_mono)
  qed
  moreover have "card (?S (i + 1)) \<le> card (?S i)"
    using fin sub by (rule card_mono)
  ultimately show "((existing, new_name, suffixed new_name i, i + 1), (existing, new_name, final, i))
      \<in> measure (\<lambda>(existing, new_name, final, i).
          2 * card {j. i \<le> j \<and> suffixed new_name j \<in> set existing}
          + (if final \<in> set existing then 1 else 0))"
    using \<open>final \<in> set existing\<close> by auto
qed

declare unique_name.simps [simp del]

text \<open>
  An uploaded file: its name, if it has one, and the bytes that \<open>read()\<close> returns. The
  batch under construction holds the log and the outputs, and, for the properties about what
  a step does not do, the reads and text extractions made so far.
\<close>

record file_storage =
  filename :: "ustring option"
  stream :: bytes

datatype event = ReadStream "ustring option" | ExtractText bytes

record batch =
  results :: "ustring list"
  outputs :: "(ustring \<times> bytes) list"
  effects :: "event list"

text \<open>The name under which a record is logged: \<open>fs.filename or ""\<close>.\<close>

definition logged_name :: "file_storage \<Rightarrow> ustring" where
  "logged_name fs = (case filename fs of None \<Rightarrow> [] | Some n \<Rightarrow> n)"

text \<open>The three warnings of the \<open>else\<close> branch; the sign is U+26A0 U+FE0F.\<close>

definition warning_line :: "ustring \<Rightarrow> ustring option \<Rightarrow> ustring option \<Rightarrow> ustring" where
  "warning_line fname ref seri =
     (if \<not> truthy ref \<and> \<not> truthy seri
      then [9888, 65039] @ ustr '' '' @ fname @ ustr '': Referensi & Nomor Seri tidak ditemukan.''
      else if \<not> truthy ref
      then [9888, 65039] @ ustr '' '' @ fname @ ustr '': Referensi tidak ditemukan.''
      else [9888, 65039] @ ustr '' '' @ fname @ ustr '': Nomor Seri Faktur Pajak tidak ditemukan.'')"

text \<open>
  One turn of the \<open>for\<close> loop. The cross is U+274C, the check mark U+2705, the arrow
  U+2192.
\<close>

definition process_one :: "unicode_tables \<Rightarrow> pdf_reader \<Rightarrow> bool \<Rightarrow> batch \<Rightarrow> file_storage \<Rightarrow> batch" where
  "process_one U read_pdf dry_run st fs =
     (let fname = logged_name fs in
      if \<not> endswith (str_lower U fname) (ustr ''.pdf'')
      then st\<lparr>results := results st @ [[10060] @ ustr '' Bukan PDF: '' @ fname]\<rparr>
      else
        let data = stream fs;
            st = st\<lparr>effects := effects st @ [ReadStream (filename fs)]\<rparr>
        in if data = []
           then st\<lparr>results := results st @ [[10060] @ ustr '' File kosong: '' @ fname]\<rparr>
           else
             let (ref, seri) = parse_pdf_fields U read_pdf data;
                 st = st\<lparr>effects := effects st @ [ExtractText data]\<rparr>;
                 new_name = build_new_name U ref seri True
             in case new_name of
                  None \<Rightarrow> st\<lparr>results := results st @ [warning_line fname ref seri]\<rparr>
                | Some name \<Rightarrow>
                    if name = []
                    then st\<lparr>results := results st @ [warning_line fname ref seri]\<rparr>
                    else
                      let existing = map fst (outputs st);
                          final = unique_name existing name name 1;
                          st = st\<lparr>results := results st
                                 @ [[9989] @ ustr '' '' @ fname @ [32, 8594, 32] @ final]\<rparr>
                      in if \<not> dry_run
                         then st\<lparr>outputs := outputs st @ [(final, data)]\<rparr>
                         else st)"

fun process_loop :: "unicode_tables \<Rightarrow> pdf_reader \<Rightarrow> bool \<Rightarrow> batch \<Rightarrow> file_storage list \<Rightarrow> batch" where
  "process_loop U read_pdf dry_run st [] = st"
| "process_loop U read_pdf dry_run st (fs # rest) =
     process_loop U read_pdf dry_run (process_one U read_pdf dry_run st fs) rest"

definition run_batch :: "unicode_tables \<Rightarrow> pdf_reader \<Rightarrow> file_storage list \<Rightarrow> bool \<Rightarrow> batch" where
  "run_batch U read_pdf file_storages dry_run =
     process_loop U read_pdf dry_run \<lparr>results = [], outputs = [], effects = []\<rparr> file_storages"

definition process_files :: "unicode_tables \<Rightarrow> pdf_reader \<Rightarrow> file_storage list \<Rightarrow> bool
    \<Rightarrow> ustring list \<times> (ustring \<times> bytes) list" where
  "process_files U read_pdf file_storages dry_run =
     (let st = run_batch U read_pdf file_storages dry_run in (results st, outputs st))"

section \<open>Notions for the properties\<close>

text \<open>
  What the two whitespace substitutions compute, as plain recursion: \<open>collapse_ws\<close>
  replaces each maximal run of whitespace, \<open>tighten_slash\<close> replaces a slash together
  with the whitespace around it by one slash. \<open>re_sub_ws_plus\<close> and \<open>re_sub_slash\<close> below
  prove that \<open>re.sub\<close> with the patterns \<open>\s+\<close> and \<open>\s*/\s*\<close> computes them.
\<close>

function collapse_ws :: "ustring \<Rightarrow> ustring \<Rightarrow> ustring" where
  "collapse_ws repl [] = []"
| "collapse_ws repl (x # xs) =
     (if isspace x then repl @ collapse_ws repl (dropWhile isspace xs)
      else x # collapse_ws repl xs)"
  by pat_completeness auto
termination
  by (relation "measure (\<lambda>(repl, s). length s)")
     (auto simp: less_Suc_eq_le length_dropWhile_le)

function tighten_slash :: "ustring \<Rightarrow> ustring" where
  "tighten_slash [] = []"
| "tighten_slash (x # xs) =
     (case dropWhile isspace (x # xs) of
        [] \<Rightarrow> x # tighten_slash xs
      | y # ys \<Rightarrow> if y = 47 then 47 # tighten_slash (dropWhile isspace ys)
                  else x # tighten_slash xs)"
  by pat_completeness auto
termination
proof (relation "measure length")
  show "wf (measure length)" by simp
next
  fix x :: nat and xs :: ustring
  show "(xs, x # xs) \<in> measure length" by simp
next
  fix x :: nat and xs :: ustring and y ys
  assume eq: "dropWhile isspace (x # xs) = y # ys"
  have "length (y # ys) \<le> length (x # xs)"
    unfolding eq[symmetric] by (rule length_dropWhile_le)
  moreover have "length (dropWhile isspace ys) \<le> length ys"
    by (rule length_dropWhile_le)
  ultimately show "(dropWhile isspace ys, x # xs) \<in> measure length" by simp
next
  fix x :: nat and xs :: ustring
  show "(xs, x # xs) \<in> measure length" by simp
qed

definition slash_re :: re where
  "slash_re = seqs [Rep 0 None (In [Space]), A (Lit (of_char CHR ''/'')), Rep 0 None (In [Space])]"

text \<open>
  Tables that say about ASCII characters what Unicode says: the digits \<open>0\<close> to \<open>9\<close>, the
  word characters, case-insensitive matching and the case mappings of ASCII letters.
\<close>

definition ascii_conformant :: "unicode_tables \<Rightarrow> bool" where
  "ascii_conformant U \<longleftrightarrow>
     (\<forall>c<128. is_decimal U c = ascii_digit c) \<and>
     (\<forall>c<128. is_word U c = ascii_word c) \<and>
     (\<forall>p<128. \<forall>c<128. ci_match U p c = (ascii_lower c = ascii_lower p)) \<and>
     (\<forall>s. list_all (\<lambda>c. c < 128) s \<longrightarrow> str_upper U s = map ascii_upper s) \<and>
     (\<forall>s. list_all (\<lambda>c. c < 128) s \<longrightarrow> str_lower U s = map ascii_lower s)"

text \<open>
  A pair of neighbouring characters is tight when it is not two whitespace characters and
  not a whitespace character next to a slash.
\<close>

definition tight :: "nat \<Rightarrow> nat \<Rightarrow> bool" where
  "tight x y \<longleftrightarrow> \<not> (isspace x \<and> isspace y) \<and> \<not> (isspace x \<and> y = 47) \<and> \<not> (x = 47 \<and> isspace y)"

text \<open>The character that the first substitution of \<open>_sanitize\<close> leaves in place of \<open>x\<close>.\<close>

definition clean :: "nat \<Rightarrow> nat" where
  "clean x = (if x \<in> set illegal_chars then 32 else x)"

text \<open>Whether a pattern has its group on every path through it.\<close>

fun sets_group :: "re \<Rightarrow> bool" where
  "sets_group (Group r) = True"
| "sets_group (Seq r1 r2) = (sets_group r1 \<or> sets_group r2)"
| "sets_group r = False"

text \<open>
  The text of the end-to-end case: the serial label with \<open>123.456-789\<close> on one line, the
  reference in parentheses on the next.
\<close>

definition example_text :: ustring where
  "example_text = ustr ''Kode dan Nomor Seri Faktur Pajak: 123.456-789'' @ [10]
     @ ustr ''(Referensi: INV/2025/09/0654)''"

text \<open>
  What the properties of the serial number need of the class \<open>\d\<close>: no decimal digit
  is a whitespace character or one of the illegal characters, so that \<open>_sanitize\<close> leaves
  digits alone.
\<close>

definition plain_digits :: "unicode_tables \<Rightarrow> bool" where
  "plain_digits U \<longleftrightarrow> (\<forall>c. is_decimal U c \<longrightarrow> \<not> isspace c \<and> c \<notin> set illegal_chars)"

text \<open>
  The strict reference format in the words of the specification: \<open>INV\<close> in any case, a
  slash, four digits, a slash, two digits, a slash, four digits.
\<close>

definition strict_shape :: "unicode_tables \<Rightarrow> ustring \<Rightarrow> bool" where
  "strict_shape U w \<longleftrightarrow>
     length w = 16 \<and>
     ci_match U (of_char CHR ''I'') (w ! 0) \<and> ci_match U (of_char CHR ''N'') (w ! 1) \<and>
     ci_match U (of_char CHR ''V'') (w ! 2) \<and> w ! 3 = of_char CHR ''/'' \<and>
     list_all (is_decimal U) (take 4 (drop 4 w)) \<and> w ! 8 = of_char CHR ''/'' \<and>
     list_all (is_decimal U) (take 2 (drop 9 w)) \<and> w ! 11 = of_char CHR ''/'' \<and>
     list_all (is_decimal U) (take 4 (drop 12 w))"

text \<open>The character before the position reached after reading \<open>w\<close> from a position after \<open>prev\<close>.\<close>

definition prev_after :: "nat option \<Rightarrow> ustring \<Rightarrow> nat option" where
  "prev_after prev w = (if w = [] then prev else Some (last w))"

section \<open>How \<open>re.sub\<close> unfolds\<close>

declare re_sub.simps [simp del]
declare first_match.simps [simp del]

lemma re_sub_miss:
  assumes "filter (\<lambda>(p, rest', g). \<not> adv \<or> rest' \<noteq> x # xs) (rmatch U r (prev, x # xs, None)) = []"
  shows "re_sub U r repl adv prev (x # xs) = x # re_sub U r repl False (Some x) xs"
proof (cases "first_match U r False (Some x) xs")
  case None
  with assms show ?thesis
    by (simp add: re_sub.simps[of U r repl adv prev "x # xs"] re_sub.simps[of U r repl False "Some x" xs]
        first_match.simps[of U r adv prev "x # xs"])
next
  case (Some a)
  obtain sk p rest' g where a: "a = (sk, (p, rest', g))" by (metis prod_cases3 surj_pair)
  with Some assms show ?thesis
    by (simp add: re_sub.simps[of U r repl adv prev "x # xs"] re_sub.simps[of U r repl False "Some x" xs]
        first_match.simps[of U r adv prev "x # xs"])
qed

lemma re_sub_hit:
  assumes "filter (\<lambda>(p, rest', g). \<not> adv \<or> rest' \<noteq> rest) (rmatch U r (prev, rest, None)) = (p, rest', g) # sts"
  shows "re_sub U r repl adv prev rest = repl @ re_sub U r repl (length rest' = length rest) p rest'"
  using assms
  by (simp add: re_sub.simps[of U r repl adv prev rest] first_match.simps[of U r adv prev rest])

lemma re_sub_Nil:
  assumes "filter (\<lambda>(p, rest', g). \<not> adv \<or> rest' \<noteq> []) (rmatch U r (prev, [], None)) = []"
  shows "re_sub U r repl adv prev [] = []"
  using assms
  by (simp add: re_sub.simps[of U r repl adv prev "[]"] first_match.simps[of U r adv prev "[]"])

lemma re_sub_atom:
  "re_sub U (A a) repl False prev s = concat (map (\<lambda>x. if atom_match U a x then repl else [x]) s)"
proof (induction s arbitrary: prev)
  case Nil
  show ?case by (simp add: re_sub_Nil)
next
  case (Cons x xs)
  show ?case
  proof (cases "atom_match U a x")
    case True
    then have "filter (\<lambda>(p, rest', g). \<not> False \<or> rest' \<noteq> x # xs) (rmatch U (A a) (prev, x # xs, None))
        = (Some x, xs, None) # []" by simp
    from re_sub_hit[OF this] True Cons.IH show ?thesis by simp
  next
    case False
    then have "filter (\<lambda>(p, rest', g). \<not> False \<or> rest' \<noteq> x # xs) (rmatch U (A a) (prev, x # xs, None)) = []"
      by simp
    from re_sub_miss[OF this] False Cons.IH show ?thesis by simp
  qed
qed

lemma rep_greedy_shape:
  "\<exists>p tl. rep_greedy U a 0 None prev rest = (p, dropWhile (atom_match U a) rest) # tl
     \<and> (\<forall>(q, r) \<in> set tl. \<exists>y ys. r = y # ys \<and> atom_match U a y)"
proof (induction rest arbitrary: prev)
  case Nil
  show ?case by simp
next
  case (Cons x xs)
  show ?case
  proof (cases "atom_match U a x")
    case True
    from Cons.IH[of "Some x"] obtain p tl where
      "rep_greedy U a 0 None (Some x) xs = (p, dropWhile (atom_match U a) xs) # tl"
      "\<forall>(q, r) \<in> set tl. \<exists>y ys. r = y # ys \<and> atom_match U a y" by blast
    with True show ?thesis by auto
  next
    case False
    then show ?thesis by simp
  qed
qed


lemma rmatch_ws_plus_hit:
  "isspace x \<Longrightarrow> \<exists>p tl. rmatch U (Rep 1 None (In [Space])) (prev, x # xs, None)
      = (p, dropWhile isspace xs, None) # tl"
proof -
  assume sp: "isspace x"
  have am: "atom_match U (In [Space]) = isspace" by (rule ext) simp
  from rep_greedy_shape[of U "In [Space]" "Some x" xs] obtain p tl where
    "rep_greedy U (In [Space]) 0 None (Some x) xs = (p, dropWhile isspace xs) # tl"
    unfolding am by blast
  with sp show ?thesis by simp
qed

lemma re_sub_ws_plus:
  "re_sub U (Rep 1 None (In [Space])) repl False prev s = collapse_ws repl s"
proof (induction repl s arbitrary: prev rule: collapse_ws.induct)
  case (1 repl)
  show ?case by (simp add: re_sub_Nil)
next
  case (2 repl x xs)
  show ?case
  proof (cases "isspace x")
    case True
    from rmatch_ws_plus_hit[OF True, of U prev xs] obtain p tl where
      m: "rmatch U (Rep 1 None (In [Space])) (prev, x # xs, None) = (p, dropWhile isspace xs, None) # tl"
      by blast
    have "filter (\<lambda>(p, rest', g). \<not> False \<or> rest' \<noteq> x # xs)
            (rmatch U (Rep 1 None (In [Space])) (prev, x # xs, None))
          = (p, dropWhile isspace xs, None) # tl"
      unfolding m by simp
    from re_sub_hit[OF this, of repl]
    have "re_sub U (Rep 1 None (In [Space])) repl False prev (x # xs)
          = repl @ re_sub U (Rep 1 None (In [Space])) repl
              (length (dropWhile isspace xs) = length (x # xs)) p (dropWhile isspace xs)" .
    moreover have "length (dropWhile isspace xs) \<noteq> length (x # xs)"
      using length_dropWhile_le[of isspace xs] by simp
    ultimately show ?thesis using True "2.IH"(1)[OF True] by simp
  next
    case False
    then have "filter (\<lambda>(p, rest', g). \<not> False \<or> rest' \<noteq> x # xs)
            (rmatch U (Rep 1 None (In [Space])) (prev, x # xs, None)) = []"
      by simp
    from re_sub_miss[OF this] False "2.IH"(2)[OF False] show ?thesis by simp
  qed
qed

lemma not_isspace_slash: "\<not> isspace 47"
  by (simp add: isspace_def)

lemma concat_map_Nil: "(\<And>x. x \<in> set xs \<Longrightarrow> f x = []) \<Longrightarrow> concat (map f xs) = []"
  by (induction xs) auto

lemma rmatch_slash_tail:
  "rmatch U (Seq (A (Lit 47)) (Seq (Rep 0 None (In [Space])) Eps)) (q, r, None)
     = (case r of [] \<Rightarrow> []
        | y # ys \<Rightarrow> if y = 47 then map (\<lambda>(p, r). (p, r, None)) (rep_greedy U (In [Space]) 0 None (Some 47) ys)
                    else [])"
  by (cases r) (auto simp: comp_def case_prod_unfold)

lemma rmatch_slash_split:
  "\<exists>p. rmatch U slash_re (prev, rest, None)
      = rmatch U (Seq (A (Lit 47)) (Seq (Rep 0 None (In [Space])) Eps)) (p, dropWhile isspace rest, None)"
proof -
  let ?K = "rmatch U (Seq (A (Lit 47)) (Seq (Rep 0 None (In [Space])) Eps))"
  have am: "atom_match U (In [Space]) = isspace" by (rule ext) simp
  from rep_greedy_shape[of U "In [Space]" prev rest] obtain p tl where
    hd: "rep_greedy U (In [Space]) 0 None prev rest = (p, dropWhile isspace rest) # tl" and
    tl: "\<forall>(q, r) \<in> set tl. \<exists>y ys. r = y # ys \<and> isspace y"
    unfolding am by blast
  have "concat (map ?K (map (\<lambda>(p, r). (p, r, None)) tl)) = []"
  proof (rule concat_map_Nil)
    fix st :: mstate assume "st \<in> set (map (\<lambda>(p, r). (p, r, None)) tl)"
    then obtain q r where st: "st = (q, r, None)" and "(q, r) \<in> set tl" by auto
    with tl obtain y ys where "r = y # ys" "isspace y" by blast
    moreover from this not_isspace_slash have "y \<noteq> 47" by auto
    ultimately show "?K st = []" unfolding st rmatch_slash_tail by simp
  qed
  then have "rmatch U slash_re (prev, rest, None) = ?K (p, dropWhile isspace rest, None)"
    by (simp add: slash_re_def seqs_def hd del: rmatch.simps(6) add: rmatch.simps(6)[of U "Rep 0 None (In [Space])"])
  then show ?thesis by blast
qed

lemma rmatch_slash_hit:
  assumes "dropWhile isspace rest = 47 # ys"
  shows "\<exists>p tl. rmatch U slash_re (prev, rest, None) = (p, dropWhile isspace ys, None) # tl"
proof -
  have am: "atom_match U (In [Space]) = isspace" by (rule ext) simp
  from rmatch_slash_split[of U prev rest] obtain q where
    "rmatch U slash_re (prev, rest, None)
      = rmatch U (Seq (A (Lit 47)) (Seq (Rep 0 None (In [Space])) Eps)) (q, dropWhile isspace rest, None)"
    by blast
  moreover from rep_greedy_shape[of U "In [Space]" "Some 47" ys] obtain p tl where
    "rep_greedy U (In [Space]) 0 None (Some 47) ys = (p, dropWhile isspace ys) # tl"
    unfolding am by blast
  ultimately show ?thesis unfolding rmatch_slash_tail assms by simp
qed

lemma rmatch_slash_miss:
  assumes "\<And>ys. dropWhile isspace rest \<noteq> 47 # ys"
  shows "rmatch U slash_re (prev, rest, None) = []"
proof -
  from rmatch_slash_split[of U prev rest] obtain q where
    "rmatch U slash_re (prev, rest, None)
      = rmatch U (Seq (A (Lit 47)) (Seq (Rep 0 None (In [Space])) Eps)) (q, dropWhile isspace rest, None)"
    by blast
  with assms show ?thesis unfolding rmatch_slash_tail by (auto split: list.splits)
qed

lemma re_sub_slash:
  "re_sub U slash_re (ustr ''/'') False prev s = tighten_slash s"
proof (induction s arbitrary: prev rule: tighten_slash.induct)
  case 1
  have "rmatch U slash_re (prev, [], None) = []" by (rule rmatch_slash_miss) simp
  then show ?case by (simp add: re_sub_Nil)
next
  case (2 x xs)
  show ?case
  proof (cases "\<exists>ys. dropWhile isspace (x # xs) = 47 # ys")
    case True
    then obtain ys where d: "dropWhile isspace (x # xs) = 47 # ys" by blast
    from rmatch_slash_hit[OF d, of U prev] obtain p tl where
      m: "rmatch U slash_re (prev, x # xs, None) = (p, dropWhile isspace ys, None) # tl" by blast
    have "length (47 # ys) \<le> length (x # xs)"
      unfolding d[symmetric] by (rule length_dropWhile_le)
    with length_dropWhile_le[of isspace ys]
    have len: "length (dropWhile isspace ys) \<noteq> length (x # xs)" by simp
    have "filter (\<lambda>(p, rest', g). \<not> False \<or> rest' \<noteq> x # xs) (rmatch U slash_re (prev, x # xs, None))
          = (p, dropWhile isspace ys, None) # tl"
      unfolding m by simp
    from re_sub_hit[OF this, of "ustr ''/''"] len "2.IH"(2)[OF d refl, of p] d
    show ?thesis by (simp add: ustr_def)
  next
    case False
    then have "rmatch U slash_re (prev, x # xs, None) = []"
      by (intro rmatch_slash_miss) blast
    then have "filter (\<lambda>(p, rest', g). \<not> False \<or> rest' \<noteq> x # xs) (rmatch U slash_re (prev, x # xs, None)) = []"
      by simp
    from re_sub_miss[OF this, of "ustr ''/''"] False
    show ?thesis
      using "2.IH"(1) "2.IH"(3)
      by (auto split: list.splits simp del: dropWhile.simps)
  qed
qed

section \<open>The sanitizer and the normalizer as plain recursion\<close>

lemma atom_match_In_Ch: "atom_match U (In (map Ch cs)) x \<longleftrightarrow> x \<in> set cs"
  by (induction cs) auto

lemma concat_map_single: "concat (map (\<lambda>x. [f x]) xs) = map f xs"
  by (induction xs) auto

lemma sanitize_eq:
  "sanitize U s = collapse_ws [32] (map (\<lambda>x. if x \<in> set illegal_chars then 32 else x) (strip s))"
proof -
  have sp: "ustr '' '' = [32]" by (simp add: ustr_def)
  have "concat (map (\<lambda>x. if atom_match U (In (map Ch illegal_chars)) x then [32] else [x]) t)
        = map (\<lambda>x. if x \<in> set illegal_chars then 32 else x) t" for t
    unfolding atom_match_In_Ch by (induction t) auto
  then show ?thesis
    unfolding sanitize_def py_sub_def Let_def sp re_sub_atom re_sub_ws_plus by simp
qed

lemma normalize_eq: "normalize_for_search U s = tighten_slash (collapse_ws [32] s)"
proof -
  have sp: "ustr '' '' = [32]" by (simp add: ustr_def)
  show ?thesis
    unfolding normalize_for_search_def py_sub_def Let_def slash_re_def[symmetric]
      re_sub_ws_plus re_sub_slash sp by simp
qed

lemma collapse_ws_nonspace: "\<not> isspace d \<Longrightarrow> collapse_ws r (d # ds) = d # collapse_ws r ds"
  by simp

lemma dropWhile_head: "dropWhile P xs = [] \<or> \<not> P (hd (dropWhile P xs))"
  by (metis hd_dropWhile)

lemma collapse_ws_hd:
  "s = [] \<or> \<not> isspace (hd s) \<Longrightarrow> collapse_ws r s = [] \<or> \<not> isspace (hd (collapse_ws r s))"
  by (cases s) auto

lemma collapse_ws_spaced:
  "successively (\<lambda>x y. \<not> (isspace x \<and> isspace y)) (collapse_ws [32] s)"
proof (induction "[32::nat]" s rule: collapse_ws.induct)
  case 1
  show ?case by simp
next
  case (2 x xs)
  show ?case
  proof (cases "isspace x")
    case True
    from collapse_ws_hd[OF dropWhile_head[of isspace xs], of "[32]"] "2.hyps"(1)[OF True] True
    show ?thesis by (auto simp: successively_Cons)
  next
    case False
    with "2.hyps"(2)[OF False] show ?thesis by (auto simp: successively_Cons)
  qed
qed

lemma successively_dropWhile: "successively P xs \<Longrightarrow> successively P (dropWhile Q xs)"
  by (induction xs) (auto simp: successively_Cons)

lemma tighten_slash_Nil_iff: "tighten_slash s = [] \<longleftrightarrow> s = []"
  by (cases s) (auto split: list.splits)

lemma tighten_slash_hd: "\<not> isspace y \<Longrightarrow> hd (tighten_slash (y # ys)) = y"
  by simp

lemma tighten_slash_tight:
  "successively (\<lambda>x y. \<not> (isspace x \<and> isspace y)) s \<Longrightarrow> successively tight (tighten_slash s)"
proof (induction s rule: tighten_slash.induct)
  case 1
  show ?case by simp
next
  case (2 x xs)
  let ?nsp = "\<lambda>x y. \<not> (isspace x \<and> isspace y)"
  from "2.prems" have nxs: "successively ?nsp xs" by (auto simp: successively_Cons)
  show ?case
  proof (cases "\<exists>ys. dropWhile isspace (x # xs) = 47 # ys")
    case True
    then obtain ys where d: "dropWhile isspace (x # xs) = 47 # ys" by blast
    have "successively ?nsp (dropWhile isspace (x # xs))"
      using "2.prems" by (rule successively_dropWhile)
    then have "successively ?nsp ys" unfolding d by (auto simp: successively_Cons)
    then have "successively ?nsp (dropWhile isspace ys)" by (rule successively_dropWhile)
    from "2.IH"(2)[OF d refl this]
    have ih: "successively tight (tighten_slash (dropWhile isspace ys))" .
    have hdD: "dropWhile isspace ys = [] \<or> \<not> isspace (hd (dropWhile isspace ys))"
      by (rule dropWhile_head)
    have "tighten_slash (dropWhile isspace ys) = []
          \<or> \<not> isspace (hd (tighten_slash (dropWhile isspace ys)))"
    proof (cases "dropWhile isspace ys")
      case Nil
      show ?thesis unfolding Nil by simp
    next
      case (Cons z zs)
      with hdD have "\<not> isspace z" by simp
      from tighten_slash_hd[OF this, of zs] this show ?thesis unfolding Cons by simp
    qed
    with ih have "successively tight (47 # tighten_slash (dropWhile isspace ys))"
      by (auto simp: successively_Cons tight_def not_isspace_slash)
    with d show ?thesis by simp
  next
    case False
    have eq: "tighten_slash (x # xs) = x # tighten_slash xs"
      using False by (auto split: list.splits simp del: dropWhile.simps)
    have ih: "successively tight (tighten_slash xs)"
    proof (cases "dropWhile isspace (x # xs)")
      case Nil
      from "2.IH"(1)[OF Nil nxs] show ?thesis .
    next
      case (Cons y ys)
      with False have "y \<noteq> 47" by auto
      from "2.IH"(3)[OF Cons this nxs] show ?thesis .
    qed
    have "xs = [] \<or> tight x (hd (tighten_slash xs))"
    proof (cases xs)
      case Nil
      then show ?thesis by simp
    next
      case (Cons y ys)
      show ?thesis
      proof (cases "isspace x")
        case True
        with "2.prems" Cons have ny: "\<not> isspace y" by simp
        with True False Cons have "y \<noteq> 47" by auto
        with ny True tighten_slash_hd[OF ny, of ys] show ?thesis
          unfolding Cons by (simp add: tight_def)
      next
        case nx: False
        with False have "x \<noteq> 47" by auto
        with nx show ?thesis by (simp add: tight_def)
      qed
    qed
    with ih show ?thesis unfolding eq
      by (auto simp: successively_Cons tighten_slash_Nil_iff)
  qed
qed

lemma normalize_tight: "successively tight (normalize_for_search U s)"
  unfolding normalize_eq by (rule tighten_slash_tight[OF collapse_ws_spaced])

text \<open>
  Claim C8: for every input, the output of the text normalizer has no two consecutive
  whitespace characters and no whitespace character next to a slash, and the empty input
  gives the empty output.
\<close>

theorem normalize_for_search_spacing:
  "normalize_for_search U [] = [] \<and>
   (\<forall>i. Suc i < length (normalize_for_search U s) \<longrightarrow>
      \<not> (isspace (normalize_for_search U s ! i) \<and> isspace (normalize_for_search U s ! Suc i)) \<and>
      \<not> (isspace (normalize_for_search U s ! i) \<and> normalize_for_search U s ! Suc i = of_char CHR ''/'') \<and>
      \<not> (normalize_for_search U s ! i = of_char CHR ''/'' \<and> isspace (normalize_for_search U s ! Suc i)))"
proof -
  have "normalize_for_search U [] = []" by (simp add: normalize_eq)
  moreover have "\<And>i. Suc i < length (normalize_for_search U s) \<Longrightarrow>
      tight (normalize_for_search U s ! i) (normalize_for_search U s ! Suc i)"
    by (rule successively_nth[OF normalize_tight])
  ultimately show ?thesis by (simp add: tight_def)
qed

theorem normalize_for_search_spacing_witness:
  "Suc 3 < length (normalize_for_search ascii_tables (ustr ''INV / 2025 a''))
   \<and> normalize_for_search ascii_tables (ustr ''INV / 2025 a'') = ustr ''INV/2025 a''
   \<and> \<not> (isspace (normalize_for_search ascii_tables (ustr ''INV / 2025 a'') ! 3)
        \<and> isspace (normalize_for_search ascii_tables (ustr ''INV / 2025 a'') ! Suc 3))"
  using normalize_for_search_spacing[of ascii_tables "ustr ''INV / 2025 a''"]
  by (simp add: normalize_eq ustr_def isspace_def)

section \<open>What the sanitizer returns\<close>

lemma strip_Nil: "strip [] = []"
  by (simp add: strip_def)

lemma set_strip: "set (strip s) \<subseteq> set s"
  unfolding strip_def by (auto dest!: set_dropWhileD)

lemma dropWhile_keeps: "c \<in> set s \<Longrightarrow> \<not> P c \<Longrightarrow> c \<in> set (dropWhile P s)"
  by (induction s) auto

lemma strip_keeps: "c \<in> set s \<Longrightarrow> \<not> isspace c \<Longrightarrow> c \<in> set (strip s)"
  unfolding strip_def by (simp add: dropWhile_keeps)

lemma strip_ends:
  assumes "strip s \<noteq> []"
  shows "\<not> isspace (hd (strip s))" and "\<not> isspace (last (strip s))"
proof -
  let ?D = "dropWhile isspace s"
  let ?E = "dropWhile isspace (rev ?D)"
  from assms have E: "?E \<noteq> []" by (simp add: strip_def)
  have D: "?D \<noteq> []"
  proof
    assume d: "?D = []"
    have "?E = []" unfolding d by simp
    with E show False by contradiction
  qed
  have "last (strip s) = hd ?E" unfolding strip_def by (rule last_rev)
  with hd_dropWhile[OF E] show "\<not> isspace (last (strip s))" by simp
  have "rev ?D = takeWhile isspace (rev ?D) @ ?E" by simp
  then have "last (rev ?D) = last ?E" using E by (metis last_appendR)
  moreover have "last (rev ?D) = hd ?D" by (rule last_rev)
  moreover have "hd (strip s) = last ?E" unfolding strip_def by (rule hd_rev)
  ultimately have "hd (strip s) = hd ?D" by simp
  with hd_dropWhile[OF D] show "\<not> isspace (hd (strip s))" by simp
qed

lemma strip_id:
  "s = [] \<or> (\<not> isspace (hd s) \<and> \<not> isspace (last s)) \<Longrightarrow> strip s = s"
proof (cases s)
  case Nil
  then show ?thesis by (simp add: strip_def)
next
  case (Cons x xs)
  assume "s = [] \<or> (\<not> isspace (hd s) \<and> \<not> isspace (last s))"
  with Cons have h: "\<not> isspace (hd s)" and l: "\<not> isspace (last s)" by auto
  from h Cons have d: "dropWhile isspace s = s" by simp
  from l have "\<not> isspace (hd (rev s))" by (simp add: hd_rev)
  moreover from Cons have "rev s \<noteq> []" by simp
  ultimately have "dropWhile isspace (rev s) = rev s" by (cases "rev s") auto
  with d show ?thesis by (simp add: strip_def)
qed

lemma strip_fixed_iff:
  "strip s = s \<longleftrightarrow> s = [] \<or> (\<not> isspace (hd s) \<and> \<not> isspace (last s))"
proof
  assume eq: "strip s = s"
  show "s = [] \<or> (\<not> isspace (hd s) \<and> \<not> isspace (last s))"
  proof (cases "s = []")
    case True
    then show ?thesis by simp
  next
    case False
    with eq have "strip s \<noteq> []" by simp
    from strip_ends[OF this] eq show ?thesis by simp
  qed
qed (rule strip_id)

lemma sanitize_clean: "sanitize U s = collapse_ws [32] (map clean (strip s))"
  unfolding sanitize_eq clean_def ..

lemma isspace_32: "isspace 32"
  by (simp add: isspace_def)

lemma illegal_32: "32 \<notin> set illegal_chars"
  by (simp add: illegal_chars_def)

lemma clean_legal: "clean x \<notin> set illegal_chars"
  by (simp add: clean_def illegal_32)

lemma isspace_clean: "\<not> isspace x \<Longrightarrow> isspace (clean x) \<longleftrightarrow> x \<in> set illegal_chars"
  by (simp add: clean_def isspace_32)

lemma set_collapse_ws: "set (collapse_ws [32] t) \<subseteq> insert 32 {c \<in> set t. \<not> isspace c}"
proof (induction "[32::nat]" t rule: collapse_ws.induct)
  case 1
  show ?case by simp
next
  case (2 x xs)
  show ?case
  proof (cases "isspace x")
    case True
    from "2.hyps"(1)[OF True] True show ?thesis by (auto dest: set_dropWhileD)
  next
    case False
    from "2.hyps"(2)[OF False] False show ?thesis by auto
  qed
qed

lemma collapse_ws_keeps: "c \<in> set t \<Longrightarrow> \<not> isspace c \<Longrightarrow> c \<in> set (collapse_ws r t)"
proof (induction r t rule: collapse_ws.induct)
  case (1 r)
  then show ?case by simp
next
  case (2 r x xs)
  show ?case
  proof (cases "isspace x")
    case True
    with "2.prems" have "c \<in> set xs" by auto
    then have "c \<in> set (dropWhile isspace xs)" using "2.prems"(2) by (rule dropWhile_keeps)
    from "2.IH"(1)[OF True this "2.prems"(2)] True show ?thesis by simp
  next
    case False
    with "2.prems" "2.IH"(2)[OF False] show ?thesis by auto
  qed
qed

lemma collapse_ws_fixed:
  "successively (\<lambda>x y. \<not> (isspace x \<and> isspace y)) r \<Longrightarrow> \<forall>c \<in> set r. isspace c \<longrightarrow> c = 32
     \<Longrightarrow> collapse_ws [32] r = r"
proof (induction r)
  case Nil
  show ?case by simp
next
  case (Cons x xs)
  then have ih: "collapse_ws [32] xs = xs" by (auto simp: successively_Cons)
  show ?case
  proof (cases "isspace x")
    case True
    with Cons.prems have "x = 32" and "xs = [] \<or> \<not> isspace (hd xs)"
      by (auto simp: successively_Cons)
    then have "dropWhile isspace xs = xs" by (cases xs) auto
    with True ih \<open>x = 32\<close> show ?thesis by simp
  next
    case False
    with ih show ?thesis by simp
  qed
qed

lemma collapse_ws_Nil_iff: "collapse_ws [32] t = [] \<longleftrightarrow> t = []"
  by (cases t) auto

lemma collapse_ws_hd_space: "t \<noteq> [] \<Longrightarrow> isspace (hd (collapse_ws [32] t)) \<longleftrightarrow> isspace (hd t)"
  by (cases t) (auto simp: isspace_32)

lemma collapse_ws_last_space:
  "t \<noteq> [] \<Longrightarrow> isspace (last (collapse_ws [32] t)) \<longleftrightarrow> isspace (last t)"
proof (induction "[32::nat]" t rule: collapse_ws.induct)
  case 1
  then show ?case by simp
next
  case (2 x xs)
  show ?case
  proof (cases "isspace x")
    case True
    show ?thesis
    proof (cases "dropWhile isspace xs = []")
      case d: True
      then have "\<forall>y \<in> set xs. isspace y" by (simp add: dropWhile_eq_Nil_conv)
      then have l: "isspace (last (x # xs))" using True by (cases xs) auto
      have "collapse_ws [32] (x # xs) = [32] @ collapse_ws [32] (dropWhile isspace xs)"
        using True by simp
      also have "\<dots> = [32]" unfolding d by simp
      finally show ?thesis using l by (simp add: isspace_32)
    next
      case d: False
      have "xs = takeWhile isspace xs @ dropWhile isspace xs" by simp
      then have "last xs = last (dropWhile isspace xs)" using d by (metis last_appendR)
      moreover from d have "xs \<noteq> []" by auto
      ultimately have l: "last (x # xs) = last (dropWhile isspace xs)" by simp
      have c: "collapse_ws [32] (x # xs) = 32 # collapse_ws [32] (dropWhile isspace xs)"
        using True by simp
      have ne: "collapse_ws [32] (dropWhile isspace xs) \<noteq> []"
        using d unfolding collapse_ws_Nil_iff .
      have "last (collapse_ws [32] (x # xs)) = last (collapse_ws [32] (dropWhile isspace xs))"
        unfolding c using ne by (rule last_ConsR)
      with "2.hyps"(1)[OF True d] l show ?thesis by simp
    qed
  next
    case False
    show ?thesis
    proof (cases xs)
      case Nil
      with False show ?thesis by simp
    next
      case (Cons y ys)
      with "2.hyps"(2)[OF False] False show ?thesis by (simp add: collapse_ws_Nil_iff)
    qed
  qed
qed

lemma sanitize_Nil: "sanitize U [] = []"
  by (simp add: sanitize_clean strip_Nil)

lemma sanitize_chars:
  "c \<in> set (sanitize U s) \<Longrightarrow> c \<notin> set illegal_chars \<and> (isspace c \<longrightarrow> c = 32)"
proof -
  assume "c \<in> set (sanitize U s)"
  with set_collapse_ws[of "map clean (strip s)"]
  have "c = 32 \<or> (c \<in> set (map clean (strip s)) \<and> \<not> isspace c)"
    unfolding sanitize_clean by auto
  then show ?thesis by (auto simp: illegal_32 clean_legal)
qed

lemma sanitize_keeps:
  assumes "c \<in> set s" "\<not> isspace c" "c \<notin> set illegal_chars"
  shows "c \<in> set (sanitize U s)"
proof -
  from assms have "c \<in> set (strip s)" by (simp add: strip_keeps)
  then have "clean c \<in> set (map clean (strip s))" by simp
  with assms(3) have "c \<in> set (map clean (strip s))" by (simp add: clean_def)
  then show ?thesis unfolding sanitize_clean using assms(2) by (rule collapse_ws_keeps)
qed

lemma sanitize_spaced: "successively (\<lambda>x y. \<not> (isspace x \<and> isspace y)) (sanitize U s)"
  unfolding sanitize_clean by (rule collapse_ws_spaced)

lemma successively_strip:
  "successively (\<lambda>x y. \<not> (isspace x \<and> isspace y)) r
     \<Longrightarrow> successively (\<lambda>x y. \<not> (isspace x \<and> isspace y)) (strip r)"
proof -
  assume a: "successively (\<lambda>x y. \<not> (isspace x \<and> isspace y)) r"
  have flip: "(\<lambda>x y. \<not> (isspace y \<and> isspace x)) = (\<lambda>x y. \<not> (isspace x \<and> isspace y))"
    by (intro ext) auto
  from a have "successively (\<lambda>x y. \<not> (isspace x \<and> isspace y)) (dropWhile isspace r)"
    by (rule successively_dropWhile)
  then have "successively (\<lambda>x y. \<not> (isspace x \<and> isspace y)) (rev (dropWhile isspace r))"
    unfolding successively_rev flip .
  then have "successively (\<lambda>x y. \<not> (isspace x \<and> isspace y))
      (dropWhile isspace (rev (dropWhile isspace r)))"
    by (rule successively_dropWhile)
  then show ?thesis unfolding strip_def successively_rev flip .
qed

lemma sanitize_sanitize: "sanitize U (sanitize U s) = strip (sanitize U s)"
proof -
  let ?r = "sanitize U s"
  have chars: "\<forall>c \<in> set (strip ?r). c \<notin> set illegal_chars \<and> (isspace c \<longrightarrow> c = 32)"
    using set_strip[of ?r] sanitize_chars[of _ U s] by blast
  then have "map clean (strip ?r) = strip ?r"
    by (intro map_idI) (simp add: clean_def)
  moreover have "collapse_ws [32] (strip ?r) = strip ?r"
    using successively_strip[OF sanitize_spaced] chars by (intro collapse_ws_fixed) auto
  ultimately show ?thesis by (simp add: sanitize_clean[of U ?r])
qed

lemma sanitize_ends:
  assumes "strip s \<noteq> []"
  shows "sanitize U s \<noteq> []"
    and "isspace (hd (sanitize U s)) \<longleftrightarrow> hd (strip s) \<in> set illegal_chars"
    and "isspace (last (sanitize U s)) \<longleftrightarrow> last (strip s) \<in> set illegal_chars"
proof -
  let ?t = "map clean (strip s)"
  from assms have t: "?t \<noteq> []" by simp
  then show "sanitize U s \<noteq> []" by (simp add: sanitize_clean collapse_ws_Nil_iff)
  from assms have "hd ?t = clean (hd (strip s))" by (simp add: hd_map)
  with collapse_ws_hd_space[OF t] isspace_clean[OF strip_ends(1)[OF assms]]
  show "isspace (hd (sanitize U s)) \<longleftrightarrow> hd (strip s) \<in> set illegal_chars"
    by (simp add: sanitize_clean)
  from assms have "last ?t = clean (last (strip s))" by (simp add: last_map)
  with collapse_ws_last_space[OF t] isspace_clean[OF strip_ends(2)[OF assms]]
  show "isspace (last (sanitize U s)) \<longleftrightarrow> last (strip s) \<in> set illegal_chars"
    by (simp add: sanitize_clean)
qed

text \<open>
  Claim C3, as amended: the sanitizer is idempotent on exactly the strings whose stripped
  form is empty or neither begins nor ends with one of the illegal characters. On any
  string, a second application only strips: \<open>sanitize_sanitize\<close>.
\<close>

theorem sanitize_idempotent_iff:
  "sanitize U (sanitize U x) = sanitize U x \<longleftrightarrow>
     strip x = [] \<or> (hd (strip x) \<notin> set illegal_chars \<and> last (strip x) \<notin> set illegal_chars)"
proof (cases "strip x = []")
  case True
  then have "sanitize U x = []" by (simp add: sanitize_clean)
  with True show ?thesis by (simp add: sanitize_Nil)
next
  case False
  from sanitize_ends[OF False, of U] False show ?thesis
    unfolding sanitize_sanitize strip_fixed_iff by simp
qed

theorem sanitize_idempotent_iff_witness:
  "strip (ustr '' a/b '') \<noteq> [] \<and> hd (strip (ustr '' a/b '')) \<notin> set illegal_chars
   \<and> last (strip (ustr '' a/b '')) \<notin> set illegal_chars
   \<and> sanitize ascii_tables (sanitize ascii_tables (ustr '' a/b '')) = sanitize ascii_tables (ustr '' a/b '')"
  using sanitize_idempotent_iff[of ascii_tables "ustr '' a/b ''"]
  by (simp add: strip_def ustr_def isspace_def illegal_chars_def)

text \<open>
  Claim C3 as stated fails at \<open>/a\<close>: the slash becomes a leading space, which only the
  second application strips.
\<close>

theorem sanitize_not_idempotent:
  "sanitize ascii_tables (sanitize ascii_tables (ustr ''/a'')) \<noteq> sanitize ascii_tables (ustr ''/a'')"
  by (simp add: sanitize_eq strip_def ustr_def isspace_def illegal_chars_def)

section \<open>Matches carry their group\<close>

lemma first_match_mem:
  "first_match U r adv prev rest = Some (sk, st) \<Longrightarrow>
     \<exists>prev'. st \<in> set (rmatch U r (prev', drop (length sk) rest, None)) \<and> sk = take (length sk) rest
       \<and> length sk \<le> length rest"
proof (induction rest arbitrary: adv prev sk)
  case Nil
  show ?case
  proof (cases "filter (\<lambda>(p, rest', g). \<not> adv \<or> rest' \<noteq> []) (rmatch U r (prev, [], None))")
    case Nil
    with Nil.prems show ?thesis by (simp add: first_match.simps[of U r adv prev "[]"])
  next
    case (Cons st' sts)
    with Nil.prems have "sk = []" and "st' = st"
      by (auto simp add: first_match.simps[of U r adv prev "[]"])
    moreover from Cons have "st' \<in> set (filter (\<lambda>(p, rest', g). \<not> adv \<or> rest' \<noteq> [])
        (rmatch U r (prev, [], None)))" by simp
    ultimately show ?thesis by auto
  qed
next
  case (Cons x xs)
  show ?case
  proof (cases "filter (\<lambda>(p, rest', g). \<not> adv \<or> rest' \<noteq> x # xs) (rmatch U r (prev, x # xs, None))")
    case Nil
    with Cons.prems obtain sk' where
      sk: "first_match U r False (Some x) xs = Some (sk', st)" and eq: "sk = x # sk'"
      by (auto simp add: first_match.simps[of U r adv prev "x # xs"])
    from Cons.IH[OF sk] eq show ?thesis by auto
  next
    case (Cons st' sts)
    with Cons.prems have "sk = []" and "st' = st"
      by (auto simp add: first_match.simps[of U r adv prev "x # xs"])
    moreover from Cons have "st' \<in> set (filter (\<lambda>(p, rest', g). \<not> adv \<or> rest' \<noteq> x # xs)
        (rmatch U r (prev, x # xs, None)))" by simp
    ultimately show ?thesis by auto
  qed
qed

lemma rmatch_group:
  "(p, r', g) \<in> set (rmatch U e (prev, rest, g0)) \<Longrightarrow> sets_group e \<or> g0 \<noteq> None \<Longrightarrow> g \<noteq> None"
proof (induction e arbitrary: p r' g prev rest g0)
  case (Seq e1 e2)
  from Seq.prems(1) obtain p1 r1 g1 where
    m1: "(p1, r1, g1) \<in> set (rmatch U e1 (prev, rest, g0))" and
    m2: "(p, r', g) \<in> set (rmatch U e2 (p1, r1, g1))"
    by auto
  show ?case
  proof (cases "sets_group e1 \<or> g0 \<noteq> None")
    case True
    from Seq.IH(1)[OF m1 True] have "g1 \<noteq> None" .
    with Seq.IH(2)[OF m2] show ?thesis by simp
  next
    case False
    with Seq.prems(2) have "sets_group e2" by simp
    with Seq.IH(2)[OF m2] show ?thesis by simp
  qed
qed (auto split: list.splits if_splits)

lemma re_search_group:
  assumes "re_search U r s = Some m" and "sets_group r"
  shows "group1 m \<noteq> None"
proof -
  from assms(1) obtain sk p rest' g where
    fm: "first_match U r False None s = Some (sk, (p, rest', g))" and g: "group1 m = g"
    by (auto simp: re_search_def split: option.splits)
  from first_match_mem[OF fm] obtain prev' where
    "(p, rest', g) \<in> set (rmatch U r (prev', drop (length sk) s, None))" by blast
  from rmatch_group[OF this] assms(2) g show ?thesis by simp
qed

lemma RE_SERI_group: "re_search U RE_SERI s = Some m \<Longrightarrow> group1 m \<noteq> None"
  by (erule re_search_group) (simp add: RE_SERI_def seqs_def lits_i_def)

lemma RE_REF_group: "re_search U RE_REF s = Some m \<Longrightarrow> group1 m \<noteq> None"
  by (erule re_search_group) (simp add: RE_REF_def seqs_def lits_i_def)

section \<open>What a match of the strict pattern looks like\<close>

lemma prev_after_Nil: "prev_after prev [] = prev"
  by (simp add: prev_after_def)

lemma prev_after_Cons: "prev_after prev (x # w) = prev_after (Some x) w"
  by (simp add: prev_after_def)

lemma prev_after_append: "prev_after prev (v @ w) = prev_after (prev_after prev v) w"
  by (simp add: prev_after_def)

lemma rep_greedy_sound:
  "(p, r) \<in> set (rep_greedy U a lo hi prev t) \<Longrightarrow>
     \<exists>w. t = w @ r \<and> p = prev_after prev w \<and> lo \<le> length w \<and>
         (\<forall>h. hi = Some h \<longrightarrow> length w \<le> h) \<and> list_all (atom_match U a) w"
proof (induction t arbitrary: lo hi prev)
  case Nil
  then show ?case by (auto simp: prev_after_Nil split: if_splits)
next
  case (Cons x xs)
  from Cons.prems consider
    (more) "hi \<noteq> Some 0" "atom_match U a x"
      "(p, r) \<in> set (rep_greedy U a (lo - 1) (map_option (\<lambda>h. h - 1) hi) (Some x) xs)"
    | (stop) "lo = 0" "p = prev" "r = x # xs"
    by (auto split: if_splits)
  then show ?case
  proof cases
    case more
    from Cons.IH[OF more(3)] obtain w where
      w: "xs = w @ r" "p = prev_after (Some x) w" "lo - 1 \<le> length w"
        "\<forall>h. map_option (\<lambda>h. h - 1) hi = Some h \<longrightarrow> length w \<le> h"
        "list_all (atom_match U a) w"
      by blast
    have "\<forall>h. hi = Some h \<longrightarrow> length (x # w) \<le> h"
    proof (intro allI impI)
      fix h assume h: "hi = Some h"
      with w(4) have "length w \<le> h - 1" by simp
      moreover from h more(1) have "h \<noteq> 0" by simp
      ultimately show "length (x # w) \<le> h" by simp
    qed
    with w more(2) show ?thesis
      by (intro exI[of _ "x # w"]) (auto simp: prev_after_Cons)
  next
    case stop
    then show ?thesis by (intro exI[of _ "[]"]) (simp add: prev_after_Nil)
  qed
qed

lemma rmatch_Seq_atom:
  assumes "(p, r, g) \<in> set (rmatch U (Seq (A a) e) (prev, t, g0))"
  shows "\<exists>x xs. t = x # xs \<and> atom_match U a x \<and> (p, r, g) \<in> set (rmatch U e (Some x, xs, g0))"
  using assms by (cases t) (auto split: if_splits)

lemma rmatch_Seq_Rep:
  assumes "(p, r, g) \<in> set (rmatch U (Seq (Rep n (Some n) a) e) (prev, t, g0))"
  shows "\<exists>w xs. t = w @ xs \<and> length w = n \<and> list_all (atom_match U a) w \<and>
           (p, r, g) \<in> set (rmatch U e (prev_after prev w, xs, g0))"
proof -
  from assms obtain p1 r1 where
    m1: "(p1, r1) \<in> set (rep_greedy U a n (Some n) prev t)" and
    m2: "(p, r, g) \<in> set (rmatch U e (p1, r1, g0))"
    by auto
  from rep_greedy_sound[OF m1] obtain w where
    "t = w @ r1" "p1 = prev_after prev w" "n \<le> length w" "length w \<le> n"
    "list_all (atom_match U a) w"
    by auto
  with m2 show ?thesis by (intro exI[of _ w] exI[of _ r1]) simp
qed

lemma rmatch_Seq_WordB:
  assumes "(p, r, g) \<in> set (rmatch U (Seq WordB e) (prev, t, g0))"
  shows "at_boundary U prev t \<and> (p, r, g) \<in> set (rmatch U e (prev, t, g0))"
  using assms by (auto split: if_splits)

lemma length4: "length w = 4 \<Longrightarrow> \<exists>a b c d. w = [a, b, c, d]"
  by (auto simp: numeral_eq_Suc length_Suc_conv)

lemma length2: "length w = 2 \<Longrightarrow> \<exists>a b. w = [a, b]"
  by (auto simp: numeral_eq_Suc length_Suc_conv)

lemma rmatch_strict:
  assumes "(p, r, g) \<in> set (rmatch U RE_INV_STRICT (prev, t, g0))"
  shows "\<exists>w. t = w @ r \<and> strict_shape U w \<and> at_boundary U prev t \<and> at_boundary U (Some (last w)) r"
proof -
  let ?D4 = "Rep 4 (Some 4) (In [Digit])"
  let ?D2 = "Rep 2 (Some 2) (In [Digit])"
  let ?e9 = "Seq ?D4 (Seq WordB Eps)"
  let ?e8 = "Seq (A (Lit 47)) ?e9"
  let ?e7 = "Seq ?D2 ?e8"
  let ?e6 = "Seq (A (Lit 47)) ?e7"
  let ?e5 = "Seq ?D4 ?e6"
  let ?e4 = "Seq (A (Lit 47)) ?e5"
  let ?e3 = "Seq (A (LitI 86)) ?e4"
  let ?e2 = "Seq (A (LitI 78)) ?e3"
  let ?e1 = "Seq (A (LitI 73)) ?e2"
  have re: "RE_INV_STRICT = Seq WordB ?e1"
    by (simp add: RE_INV_STRICT_def seqs_def lits_i_def)
  from rmatch_Seq_WordB[OF assms[unfolded re]]
  have b1: "at_boundary U prev t" and m1: "(p, r, g) \<in> set (rmatch U ?e1 (prev, t, g0))"
    by blast+
  from rmatch_Seq_atom[OF m1] obtain i t1 where
    i: "t = i # t1" "atom_match U (LitI 73) i" and
    m2: "(p, r, g) \<in> set (rmatch U ?e2 (Some i, t1, g0))"
    by blast
  from rmatch_Seq_atom[OF m2] obtain n t2 where
    n: "t1 = n # t2" "atom_match U (LitI 78) n" and
    m3: "(p, r, g) \<in> set (rmatch U ?e3 (Some n, t2, g0))"
    by blast
  from rmatch_Seq_atom[OF m3] obtain v t3 where
    v: "t2 = v # t3" "atom_match U (LitI 86) v" and
    m4: "(p, r, g) \<in> set (rmatch U ?e4 (Some v, t3, g0))"
    by blast
  from rmatch_Seq_atom[OF m4] obtain s1 t4 where
    s1: "t3 = s1 # t4" "atom_match U (Lit 47) s1" and
    m5: "(p, r, g) \<in> set (rmatch U ?e5 (Some s1, t4, g0))"
    by blast
  from rmatch_Seq_Rep[OF m5] obtain y t5 where
    y: "t4 = y @ t5" "length y = 4" "list_all (atom_match U (In [Digit])) y" and
    m6: "(p, r, g) \<in> set (rmatch U ?e6 (prev_after (Some s1) y, t5, g0))"
    by blast
  from rmatch_Seq_atom[OF m6] obtain s2 t6 where
    s2: "t5 = s2 # t6" "atom_match U (Lit 47) s2" and
    m7: "(p, r, g) \<in> set (rmatch U ?e7 (Some s2, t6, g0))"
    by blast
  from rmatch_Seq_Rep[OF m7] obtain mo t7 where
    mo: "t6 = mo @ t7" "length mo = 2" "list_all (atom_match U (In [Digit])) mo" and
    m8: "(p, r, g) \<in> set (rmatch U ?e8 (prev_after (Some s2) mo, t7, g0))"
    by blast
  from rmatch_Seq_atom[OF m8] obtain s3 t8 where
    s3: "t7 = s3 # t8" "atom_match U (Lit 47) s3" and
    m9: "(p, r, g) \<in> set (rmatch U ?e9 (Some s3, t8, g0))"
    by blast
  from rmatch_Seq_Rep[OF m9] obtain d t9 where
    d: "t8 = d @ t9" "length d = 4" "list_all (atom_match U (In [Digit])) d" and
    m10: "(p, r, g) \<in> set (rmatch U (Seq WordB Eps) (prev_after (Some s3) d, t9, g0))"
    by blast
  from rmatch_Seq_WordB[OF m10]
  have b2: "at_boundary U (prev_after (Some s3) d) t9" and r: "r = t9"
    by simp_all
  from length4[OF y(2)] obtain y1 y2 y3 y4 where ye: "y = [y1, y2, y3, y4]" by blast
  from length2[OF mo(2)] obtain m1 m2 where me: "mo = [m1, m2]" by blast
  from length4[OF d(2)] obtain d1 d2 d3 d4 where de: "d = [d1, d2, d3, d4]" by blast
  let ?w = "[i, n, v, 47, y1, y2, y3, y4, 47, m1, m2, 47, d1, d2, d3, d4]"
  from s1(2) s2(2) s3(2) have s: "s1 = 47" "s2 = 47" "s3 = 47" by simp_all
  have t: "t = ?w @ r"
    unfolding i(1) n(1) v(1) s1(1) y(1) s2(1) mo(1) s3(1) d(1) r ye me de s by simp
  have shape: "strict_shape U ?w"
    using i(2) n(2) v(2) y(3) mo(3) d(3) unfolding ye me de
    by (simp add: strict_shape_def)
  have "at_boundary U (Some (last ?w)) r" using b2 r unfolding de by (simp add: prev_after_def)
  with t shape b1 show ?thesis by blast
qed


lemma first_match_sound:
  "first_match U r adv prev rest = Some (sk, st) \<Longrightarrow>
     st \<in> set (rmatch U r (prev_after prev sk, drop (length sk) rest, None))
       \<and> sk = take (length sk) rest \<and> length sk \<le> length rest"
proof (induction rest arbitrary: adv prev sk)
  case Nil
  show ?case
  proof (cases "filter (\<lambda>(p, rest', g). \<not> adv \<or> rest' \<noteq> []) (rmatch U r (prev, [], None))")
    case Nil
    with Nil.prems show ?thesis by (simp add: first_match.simps[of U r adv prev "[]"])
  next
    case (Cons st' sts)
    with Nil.prems have "sk = []" and "st' = st"
      by (auto simp add: first_match.simps[of U r adv prev "[]"])
    moreover from Cons have "st' \<in> set (filter (\<lambda>(p, rest', g). \<not> adv \<or> rest' \<noteq> [])
        (rmatch U r (prev, [], None)))" by simp
    ultimately show ?thesis by (auto simp: prev_after_Nil)
  qed
next
  case (Cons x xs)
  show ?case
  proof (cases "filter (\<lambda>(p, rest', g). \<not> adv \<or> rest' \<noteq> x # xs) (rmatch U r (prev, x # xs, None))")
    case Nil
    with Cons.prems obtain sk' where
      sk: "first_match U r False (Some x) xs = Some (sk', st)" and eq: "sk = x # sk'"
      by (auto simp add: first_match.simps[of U r adv prev "x # xs"])
    from Cons.IH[OF sk] eq show ?thesis by (auto simp: prev_after_Cons)
  next
    case (Cons st' sts)
    with Cons.prems have "sk = []" and "st' = st"
      by (auto simp add: first_match.simps[of U r adv prev "x # xs"])
    moreover from Cons have "st' \<in> set (filter (\<lambda>(p, rest', g). \<not> adv \<or> rest' \<noteq> x # xs)
        (rmatch U r (prev, x # xs, None)))" by simp
    ultimately show ?thesis by (auto simp: prev_after_Nil)
  qed
qed

lemma strict_match_shape:
  assumes "re_search U RE_INV_STRICT s = Some m"
  shows "\<exists>pre post. s = pre @ group0 m @ post \<and> strict_shape U (group0 m) \<and>
           at_boundary U (prev_after None pre) (group0 m @ post) \<and>
           at_boundary U (Some (last (group0 m))) post"
proof -
  from assms obtain sk p rest' g where
    fm: "first_match U RE_INV_STRICT False None s = Some (sk, (p, rest', g))" and
    g0: "group0 m = take (length s - length sk - length rest') (drop (length sk) s)"
    by (auto simp: re_search_def split: option.splits)
  from first_match_sound[OF fm] have
    mem: "(p, rest', g) \<in> set (rmatch U RE_INV_STRICT (prev_after None sk, drop (length sk) s, None))"
    and sk: "sk = take (length sk) s"
    by blast+
  from rmatch_strict[OF mem] obtain w where
    w: "drop (length sk) s = w @ rest'" "strict_shape U w"
      "at_boundary U (prev_after None sk) (drop (length sk) s)"
      "at_boundary U (Some (last w)) rest'"
    by blast
  have "length s - length sk = length w + length rest'"
    using arg_cong[OF w(1), of length] by simp
  then have gw: "group0 m = w" unfolding g0 w(1) by simp
  have "s = take (length sk) s @ drop (length sk) s" by simp
  then have "s = sk @ w @ rest'" using sk w(1) by metis
  with w gw show ?thesis by (intro exI[of _ sk] exI[of _ rest']) simp
qed

section \<open>The name builder\<close>

lemma not_isspace_dash: "\<not> isspace 45"
  by (simp add: isspace_def)

lemma dash_legal: "45 \<notin> set illegal_chars"
  by (simp add: illegal_chars_def)

lemma build_new_name_Some:
  assumes "r \<noteq> []" "s \<noteq> []"
  shows "build_new_name U (Some r) (Some s) pretty_slash
    = Some (sanitize U (invoice_ref_to_filename (sanitize U r) pretty_slash @ ustr '' - '' @ s)
            @ ustr ''.pdf'')"
proof -
  have "45 \<in> set (invoice_ref_to_filename (sanitize U r) pretty_slash @ ustr '' - '' @ s)"
    by (simp add: ustr_def)
  from sanitize_keeps[OF this not_isspace_dash dash_legal, of U]
  have "sanitize U (invoice_ref_to_filename (sanitize U r) pretty_slash @ ustr '' - '' @ s) \<noteq> []"
    by auto
  with assms show ?thesis by (simp add: build_new_name_def truthy_def Let_def)
qed

text \<open>
  Claim C6, as amended: the name builder returns nothing exactly when the reference or
  the serial number is absent or the empty string, as they are given and not as they are
  after sanitizing; every name it returns ends in \<open>.pdf\<close>; and it returns a name when
  both are present and sanitize to non-empty strings.
\<close>

theorem build_new_name_absent_iff:
  "(build_new_name U ref seri pretty_slash = None \<longleftrightarrow>
      ref = None \<or> ref = Some [] \<or> seri = None \<or> seri = Some []) \<and>
   (\<forall>name. build_new_name U ref seri pretty_slash = Some name \<longrightarrow> endswith name (ustr ''.pdf'')) \<and>
   (\<forall>r s. ref = Some r \<and> seri = Some s \<and> sanitize U r \<noteq> [] \<and> sanitize U s \<noteq> [] \<longrightarrow>
      (\<exists>name. build_new_name U ref seri pretty_slash = Some name \<and> endswith name (ustr ''.pdf'')))"
proof -
  have absent: "build_new_name U ref seri pretty_slash = None"
    if "ref = None \<or> ref = Some [] \<or> seri = None \<or> seri = Some []"
    using that by (auto simp: build_new_name_def truthy_def)
  have present: "\<exists>base. build_new_name U ref seri pretty_slash = Some (base @ ustr ''.pdf'')"
    if "\<not> (ref = None \<or> ref = Some [] \<or> seri = None \<or> seri = Some [])"
  proof -
    from that obtain r s where "ref = Some r" "seri = Some s" "r \<noteq> []" "s \<noteq> []" by auto
    with build_new_name_Some[of r s U pretty_slash] show ?thesis by simp
  qed
  have iff: "build_new_name U ref seri pretty_slash = None \<longleftrightarrow>
      ref = None \<or> ref = Some [] \<or> seri = None \<or> seri = Some []"
    using absent present by (metis option.distinct(1))
  have ends: "endswith name (ustr ''.pdf'')"
    if "build_new_name U ref seri pretty_slash = Some name" for name
  proof -
    from that iff have "\<not> (ref = None \<or> ref = Some [] \<or> seri = None \<or> seri = Some [])"
      by (metis option.distinct(1))
    from present[OF this] that show ?thesis by (auto simp: endswith_def suffix_def)
  qed
  have both: "\<exists>name. build_new_name U ref seri pretty_slash = Some name \<and> endswith name (ustr ''.pdf'')"
    if "ref = Some r \<and> seri = Some s \<and> sanitize U r \<noteq> [] \<and> sanitize U s \<noteq> []" for r s
  proof -
    from that have "\<not> (ref = None \<or> ref = Some [] \<or> seri = None \<or> seri = Some [])"
      by (auto simp: sanitize_Nil)
    from present[OF this] show ?thesis by (auto simp: endswith_def suffix_def)
  qed
  from iff ends both show ?thesis by blast
qed

theorem build_new_name_absent_iff_witness:
  "build_new_name ascii_tables (Some []) (Some (ustr ''22'')) True = None
   \<and> sanitize ascii_tables (ustr ''INV/1'') \<noteq> [] \<and> sanitize ascii_tables (ustr ''22'') \<noteq> []
   \<and> (\<exists>name. build_new_name ascii_tables (Some (ustr ''INV/1'')) (Some (ustr ''22'')) True = Some name
        \<and> endswith name (ustr ''.pdf''))"
  using build_new_name_absent_iff[of ascii_tables "Some []" "Some (ustr ''22'')" True]
    build_new_name_absent_iff[of ascii_tables "Some (ustr ''INV/1'')" "Some (ustr ''22'')" True]
  by (simp add: sanitize_eq strip_def ustr_def isspace_def illegal_chars_def)

text \<open>
  Claim C6 as stated fails for a reference of one space: it is present and not empty, so
  the first test lets it pass, it sanitizes to the empty string, and the name built has
  no reference in it.
\<close>

theorem build_new_name_partial:
  "sanitize ascii_tables (ustr '' '') = [] \<and>
   build_new_name ascii_tables (Some (ustr '' '')) (Some (ustr ''22'')) True = Some (ustr ''- 22.pdf'')"
  by (simp add: build_new_name_def truthy_def invoice_ref_to_filename_def replace_char_def
      sanitize_eq strip_def ustr_def isspace_def illegal_chars_def)

section \<open>The field extractor\<close>

lemma replace_char_Nil: "replace_char c [] s = filter (\<lambda>x. x \<noteq> c) s"
  unfolding replace_char_def by (induction s) auto

lemma py_sub_delete: "py_sub U (A a) [] s = filter (\<lambda>x. \<not> atom_match U a x) s"
  unfolding py_sub_def re_sub_atom by (induction s) auto

lemma successively_no_space:
  "\<forall>c \<in> set d. \<not> isspace c \<Longrightarrow> successively (\<lambda>x y. \<not> (isspace x \<and> isspace y)) d"
  by (induction d) (auto simp: successively_Cons)

lemma sanitize_plain:
  assumes "\<forall>c \<in> set d. \<not> isspace c \<and> c \<notin> set illegal_chars"
  shows "sanitize U d = d"
proof -
  have "d = [] \<or> (\<not> isspace (hd d) \<and> \<not> isspace (last d))"
    using assms by (cases d) auto
  then have "strip d = d" by (rule strip_id)
  moreover have "map clean d = d" using assms by (intro map_idI) (simp add: clean_def)
  moreover have "collapse_ws [32] d = d"
    using assms by (intro collapse_ws_fixed successively_no_space) auto
  ultimately show ?thesis by (simp add: sanitize_clean)
qed

lemma extract_seri_digits:
  assumes plain: "\<forall>c. is_decimal U c \<longrightarrow> \<not> isspace c \<and> c \<notin> set illegal_chars"
    and m: "re_search U RE_SERI norm = Some m"
  shows "extract_seri U norm
    = Some (filter (\<lambda>c. is_decimal U c \<and> c \<noteq> of_char CHR ''.'' \<and> c \<noteq> of_char CHR ''-'')
             (group_text m))"
proof -
  let ?d = "filter (\<lambda>c. is_decimal U c \<and> c \<noteq> of_char CHR ''.'' \<and> c \<noteq> of_char CHR ''-'')
             (group_text m)"
  have "replace_char (of_char CHR ''-'') [] (replace_char (of_char CHR ''.'') []
          (py_sub U (A (NotIn [Digit, Ch (of_char CHR ''.''), Ch (of_char CHR ''-'')])) []
             (group_text m))) = ?d"
    unfolding replace_char_Nil py_sub_delete
    by (auto intro: filter_cong)
  moreover have "sanitize U ?d = ?d" using plain by (intro sanitize_plain) auto
  ultimately show ?thesis using m by (simp add: extract_seri_def Let_def)
qed

text \<open>
  Claim C7: when the serial label is found, the serial number returned is what remains of
  the text after the label when everything but decimal digits is removed (and is absent
  if nothing remains); when the label is not found, the serial number is absent. So a
  serial number that is returned consists of decimal digits only. The digits are those
  of the class \<open>\d\<close>, none of which is a whitespace or an illegal character
  (\<open>plain_digits\<close>).
\<close>

theorem seri_digits_only:
  assumes "plain_digits U"
  shows "(re_search U RE_SERI (normalize_for_search U raw) = None \<longrightarrow> snd (parse_text U raw) = None) \<and>
    (\<forall>m. re_search U RE_SERI (normalize_for_search U raw) = Some m \<longrightarrow>
       snd (parse_text U raw)
       = or_none (Some (filter (\<lambda>c. is_decimal U c \<and> c \<noteq> of_char CHR ''.'' \<and> c \<noteq> of_char CHR ''-'')
                   (group_text m)))) \<and>
    (\<forall>s. snd (parse_text U raw) = Some s \<longrightarrow> s \<noteq> [] \<and> list_all (is_decimal U) s)"
proof -
  let ?norm = "normalize_for_search U raw"
  have snd_eq: "snd (parse_text U raw) = or_none (extract_seri U ?norm)"
    by (simp add: parse_text_def Let_def)
  have none: "re_search U RE_SERI ?norm = None \<Longrightarrow> snd (parse_text U raw) = None"
    by (simp add: snd_eq extract_seri_def or_none_def truthy_def)
  have some: "snd (parse_text U raw)
       = or_none (Some (filter (\<lambda>c. is_decimal U c \<and> c \<noteq> of_char CHR ''.'' \<and> c \<noteq> of_char CHR ''-'')
                   (group_text m)))"
    if "re_search U RE_SERI ?norm = Some m" for m
    unfolding snd_eq extract_seri_digits[OF assms[unfolded plain_digits_def] that] ..
  have digits: "s \<noteq> [] \<and> list_all (is_decimal U) s" if s: "snd (parse_text U raw) = Some s" for s
  proof (cases "re_search U RE_SERI ?norm")
    case None
    from none[OF this] s show ?thesis by simp
  next
    case (Some m)
    from some[OF this] s show ?thesis
      by (auto simp: or_none_def truthy_def list_all_iff split: if_splits)
  qed
  from none some digits show ?thesis by blast
qed


theorem seri_digits_only_witness:
  "plain_digits ascii_tables
   \<and> re_search ascii_tables RE_SERI
       (normalize_for_search ascii_tables (ustr ''Kode dan Nomor Seri Faktur Pajak: 12.3-4 x''))
     = Some \<lparr>group0 = ustr ''Kode dan Nomor Seri Faktur Pajak: 12.3-4 '', group1 = Some (ustr ''12.3-4 '')\<rparr>
   \<and> snd (parse_text ascii_tables (ustr ''Kode dan Nomor Seri Faktur Pajak: 12.3-4 x'')) = Some (ustr ''1234'')
   \<and> list_all (is_decimal ascii_tables) (ustr ''1234'')"
proof -
  have plain: "plain_digits ascii_tables"
    by (auto simp: plain_digits_def ascii_tables_def ascii_digit_def isspace_def illegal_chars_def)
  have norm: "normalize_for_search ascii_tables (ustr ''Kode dan Nomor Seri Faktur Pajak: 12.3-4 x'')
      = ustr ''Kode dan Nomor Seri Faktur Pajak: 12.3-4 x''"
    by (simp add: normalize_eq ustr_def isspace_def)
  have m: "re_search ascii_tables RE_SERI (ustr ''Kode dan Nomor Seri Faktur Pajak: 12.3-4 x'')
     = Some \<lparr>group0 = ustr ''Kode dan Nomor Seri Faktur Pajak: 12.3-4 '', group1 = Some (ustr ''12.3-4 '')\<rparr>"
    by (simp add: re_search_def first_match.simps RE_SERI_def seqs_def lits_i_def ustr_def
        ascii_tables_def ascii_lower_def ascii_digit_def isspace_def)
  from seri_digits_only[OF plain, of "ustr ''Kode dan Nomor Seri Faktur Pajak: 12.3-4 x''"]
  show ?thesis
    unfolding norm using plain m
    by (simp add: group_text_def or_none_def truthy_def ustr_def ascii_tables_def ascii_digit_def)
qed


text \<open>
  Claim C2: whenever the strict pattern matches somewhere in the normalized text, the
  match is a piece of the text of the strict format between word boundaries, and the
  reference chosen by the two tiers is the uppercased text of that match, whatever the
  text holds elsewhere, a \<open>Referensi\<close> phrase included: the fallback is not consulted.
  The last part records what \<open>parse_pdf_fields\<close> then returns: that reference passed
  through the conversion to a file name part that both tiers share.
\<close>

theorem strict_tier_first:
  assumes "re_search U RE_INV_STRICT (normalize_for_search U raw) = Some m"
  shows "(\<exists>pre post. normalize_for_search U raw = pre @ group0 m @ post \<and>
       strict_shape U (group0 m) \<and>
       at_boundary U (prev_after None pre) (group0 m @ post) \<and>
       at_boundary U (Some (last (group0 m))) post) \<and>
    extract_ref U (normalize_for_search U raw) = Some (str_upper U (group0 m)) \<and>
    fst (parse_text U raw)
      = or_none (if str_upper U (group0 m) \<noteq> []
                 then Some (invoice_ref_to_filename (sanitize U (str_upper U (group0 m))) True)
                 else Some [])"
proof -
  have "extract_ref U (normalize_for_search U raw) = Some (str_upper U (group0 m))"
    using assms by (simp add: extract_ref_def)
  with strict_match_shape[OF assms] show ?thesis by (simp add: parse_text_def Let_def)
qed

theorem strict_tier_first_witness:
  "re_search ascii_tables RE_INV_STRICT
      (normalize_for_search ascii_tables (ustr ''(Referensi: ABC) no inv/2025/09/0654.''))
     = Some \<lparr>group0 = ustr ''inv/2025/09/0654'', group1 = None\<rparr>
   \<and> re_search ascii_tables RE_REF
      (normalize_for_search ascii_tables (ustr ''(Referensi: ABC) no inv/2025/09/0654.'')) \<noteq> None
   \<and> extract_ref ascii_tables
      (normalize_for_search ascii_tables (ustr ''(Referensi: ABC) no inv/2025/09/0654.''))
     = Some (ustr ''INV/2025/09/0654'')
   \<and> strict_shape ascii_tables (ustr ''inv/2025/09/0654'')"
proof -
  have norm: "normalize_for_search ascii_tables (ustr ''(Referensi: ABC) no inv/2025/09/0654.'')
      = ustr ''(Referensi: ABC) no inv/2025/09/0654.''"
    by (simp add: normalize_eq ustr_def isspace_def)
  have m: "re_search ascii_tables RE_INV_STRICT (ustr ''(Referensi: ABC) no inv/2025/09/0654.'')
     = Some \<lparr>group0 = ustr ''inv/2025/09/0654'', group1 = None\<rparr>"
    by (simp add: re_search_def first_match.simps RE_INV_STRICT_def seqs_def lits_i_def ustr_def
        at_boundary_def ascii_tables_def ascii_lower_def ascii_digit_def ascii_word_def)
  have r: "re_search ascii_tables RE_REF (ustr ''(Referensi: ABC) no inv/2025/09/0654.'') \<noteq> None"
    by (simp add: re_search_def first_match.simps RE_REF_def seqs_def lits_i_def ustr_def
        ascii_tables_def ascii_lower_def isspace_def)
  note th = strict_tier_first[of ascii_tables "ustr ''(Referensi: ABC) no inv/2025/09/0654.''",
      unfolded norm, OF m]
  from th have sh: "strict_shape ascii_tables (ustr ''inv/2025/09/0654'')" by auto
  from th have ex: "extract_ref ascii_tables (ustr ''(Referensi: ABC) no inv/2025/09/0654.'')
      = Some (str_upper ascii_tables (ustr ''inv/2025/09/0654''))" by simp
  have up: "str_upper ascii_tables (ustr ''inv/2025/09/0654'') = ustr ''INV/2025/09/0654''"
    by (simp add: ustr_def ascii_tables_def ascii_upper_def)
  show ?thesis unfolding norm using m r sh ex up by simp
qed

section \<open>The batch processor\<close>

lemma process_one_results:
  "\<exists>line. results (process_one U read_pdf dry_run st fs) = results st @ [line]"
  by (auto simp: process_one_def Let_def split: option.splits prod.splits)

lemma process_one_last:
  "results (process_one U read_pdf dry_run st fs)
     = results st @ [last (results (process_one U read_pdf dry_run st fs))]"
  using process_one_results[of U read_pdf dry_run st fs] by auto

lemma sublist_ConsI: "sublist x ys \<Longrightarrow> sublist x (y # ys)"
  by (simp add: sublist_Cons_right)

lemma process_one_names:
  "sublist (logged_name fs) (last (results (process_one U read_pdf dry_run st fs)))"
  by (auto simp: process_one_def logged_name_def warning_line_def Let_def sublist_ConsI
      split: option.splits prod.splits)

lemma process_loop_append:
  "process_loop U read_pdf dry_run st (xs @ ys)
     = process_loop U read_pdf dry_run (process_loop U read_pdf dry_run st xs) ys"
  by (induction xs arbitrary: st) auto

lemma process_loop_results:
  "\<exists>ls. results (process_loop U read_pdf dry_run st fss) = results st @ ls \<and> length ls = length fss"
proof (induction fss arbitrary: st)
  case Nil
  show ?case by simp
next
  case (Cons fs fss)
  from process_one_results[of U read_pdf dry_run st fs] obtain line where
    l: "results (process_one U read_pdf dry_run st fs) = results st @ [line]" by blast
  from Cons[of "process_one U read_pdf dry_run st fs"] obtain ls where
    "results (process_loop U read_pdf dry_run (process_one U read_pdf dry_run st fs) fss)
       = results (process_one U read_pdf dry_run st fs) @ ls" "length ls = length fss" by blast
  with l show ?case by simp
qed

lemma process_loop_length:
  "length (results (process_loop U read_pdf dry_run st fss)) = length (results st) + length fss"
  using process_loop_results[of U read_pdf dry_run st fss] by auto

lemma process_loop_nth:
  assumes "k < length fss"
  shows "results (process_loop U read_pdf dry_run st fss) ! (length (results st) + k)
    = last (results (process_one U read_pdf dry_run
              (process_loop U read_pdf dry_run st (take k fss)) (fss ! k)))"
proof -
  let ?st' = "process_loop U read_pdf dry_run st (take k fss)"
  let ?st'' = "process_one U read_pdf dry_run ?st' (fss ! k)"
  have "fss = take k fss @ fss ! k # drop (Suc k) fss"
    using assms by (rule id_take_nth_drop)
  then have "process_loop U read_pdf dry_run st fss
      = process_loop U read_pdf dry_run ?st'' (drop (Suc k) fss)"
    by (metis process_loop_append process_loop.simps(2))
  moreover from process_loop_results[of U read_pdf dry_run ?st'' "drop (Suc k) fss"] obtain ls where
    "results (process_loop U read_pdf dry_run ?st'' (drop (Suc k) fss)) = results ?st'' @ ls"
    by blast
  ultimately have r: "results (process_loop U read_pdf dry_run st fss) = results ?st'' @ ls"
    by simp
  have len: "length (results ?st') = length (results st) + k"
    using assms by (simp add: process_loop_length)
  have "results ?st'' = results ?st' @ [last (results ?st'')]"
    by (rule process_one_last)
  then have "results (process_loop U read_pdf dry_run st fss)
      = results ?st' @ last (results ?st'') # ls"
    using r by simp
  then show ?thesis using len by (simp add: nth_append)
qed

text \<open>
  Claim C5: the batch processor logs exactly one line per input record, in the order of
  the input: the log is as long as the input, and its \<open>k\<close>-th line is the line that the
  turn of the loop for the \<open>k\<close>-th record appends, after the turns for the records before
  it, and names that record. The loop is a total function (the collision loop inside it
  terminates), so no record stops the records after it from being processed.
\<close>

theorem one_log_line_per_record:
  "length (fst (process_files U read_pdf fss dry_run)) = length fss \<and>
   (\<forall>k < length fss.
      fst (process_files U read_pdf fss dry_run) ! k
        = last (results (process_one U read_pdf dry_run
                  (run_batch U read_pdf (take k fss) dry_run) (fss ! k))) \<and>
      sublist (logged_name (fss ! k)) (fst (process_files U read_pdf fss dry_run) ! k))"
proof -
  have len: "length (fst (process_files U read_pdf fss dry_run)) = length fss"
    by (simp add: process_files_def run_batch_def Let_def process_loop_length)
  have nth: "fst (process_files U read_pdf fss dry_run) ! k
        = last (results (process_one U read_pdf dry_run
                  (run_batch U read_pdf (take k fss) dry_run) (fss ! k)))"
    if "k < length fss" for k
    using process_loop_nth[OF that, of U read_pdf dry_run "\<lparr>results = [], outputs = [], effects = []\<rparr>"]
    by (simp add: process_files_def run_batch_def Let_def)
  from len nth process_one_names show ?thesis by simp
qed

theorem one_log_line_per_record_witness:
  "(1::nat) < length [\<lparr>filename = Some (ustr ''a.txt''), stream = [1]\<rparr>,
                      \<lparr>filename = Some (ustr ''e.PDF''), stream = []\<rparr>] \<and>
   length (fst (process_files ascii_tables (\<lambda>b. None)
      [\<lparr>filename = Some (ustr ''a.txt''), stream = [1]\<rparr>,
       \<lparr>filename = Some (ustr ''e.PDF''), stream = []\<rparr>] False)) = 2 \<and>
   fst (process_files ascii_tables (\<lambda>b. None)
      [\<lparr>filename = Some (ustr ''a.txt''), stream = [1]\<rparr>,
       \<lparr>filename = Some (ustr ''e.PDF''), stream = []\<rparr>] False) ! 1
     = [10060] @ ustr '' File kosong: e.PDF''"
proof -
  let ?f1 = "\<lparr>filename = Some (ustr ''a.txt''), stream = [1]\<rparr>"
  let ?f2 = "\<lparr>filename = Some (ustr ''e.PDF''), stream = []\<rparr>"
  have e1: "\<not> endswith (str_lower ascii_tables (ustr ''a.txt'')) (ustr ''.pdf'')"
    by (simp add: ascii_tables_def ustr_def ascii_lower_def endswith_def suffix_to_prefix)
  have e2: "endswith (str_lower ascii_tables (ustr ''e.PDF'')) (ustr ''.pdf'')"
    by (simp add: ascii_tables_def ustr_def ascii_lower_def endswith_def suffix_to_prefix)
  have "last (results (process_one ascii_tables (\<lambda>b. None) False
            (run_batch ascii_tables (\<lambda>b. None) (take 1 [?f1, ?f2]) False) ([?f1, ?f2] ! 1)))
        = [10060] @ ustr '' File kosong: e.PDF''"
    using e1 e2 by (simp add: run_batch_def process_one_def logged_name_def Let_def)
      (simp add: ustr_def)
  with one_log_line_per_record[of ascii_tables "\<lambda>b. None" "[?f1, ?f2]" False]
  show ?thesis by simp
qed

text \<open>
  Claim C10: a record whose file name is missing, or does not end in \<open>.pdf\<close> when
  lowercased, is logged as not a PDF and nothing else happens: its content is not read,
  no text is extracted and the outputs stay as they are, with or without \<open>dry_run\<close>.
  That the lowercased empty name is empty is the one thing asked of \<open>str.lower\<close>.
\<close>

theorem not_pdf_rejected:
  assumes "str_lower U [] = []"
    and "filename fs = None \<or> \<not> endswith (str_lower U (logged_name fs)) (ustr ''.pdf'')"
  shows "results (process_one U read_pdf dry_run st fs)
           = results st @ [[10060] @ ustr '' Bukan PDF: '' @ logged_name fs] \<and>
         outputs (process_one U read_pdf dry_run st fs) = outputs st \<and>
         effects (process_one U read_pdf dry_run st fs) = effects st"
proof -
  from assms have "\<not> endswith (str_lower U (logged_name fs)) (ustr ''.pdf'')"
    by (auto simp: logged_name_def endswith_def ustr_def)
  then show ?thesis by (simp add: process_one_def logged_name_def)
qed

theorem not_pdf_rejected_witness:
  "str_lower ascii_tables [] = []
   \<and> \<not> endswith (str_lower ascii_tables (logged_name \<lparr>filename = Some (ustr ''a.PDF.txt''), stream = [1]\<rparr>))
        (ustr ''.pdf'')
   \<and> results (process_one ascii_tables (\<lambda>b. None) False \<lparr>results = [], outputs = [], effects = []\<rparr>
        \<lparr>filename = Some (ustr ''a.PDF.txt''), stream = [1]\<rparr>)
     = [[10060] @ ustr '' Bukan PDF: a.PDF.txt'']
   \<and> effects (process_one ascii_tables (\<lambda>b. None) False \<lparr>results = [], outputs = [], effects = []\<rparr>
        \<lparr>filename = Some (ustr ''a.PDF.txt''), stream = [1]\<rparr>) = []"
proof -
  have l: "str_lower ascii_tables [] = []" by (simp add: ascii_tables_def)
  have e: "\<not> endswith (str_lower ascii_tables
              (logged_name \<lparr>filename = Some (ustr ''a.PDF.txt''), stream = [1]\<rparr>)) (ustr ''.pdf'')"
    by (simp add: ascii_tables_def logged_name_def endswith_def ustr_def ascii_lower_def
        suffix_to_prefix)
  from not_pdf_rejected[OF l disjI2[OF e], of "\<lambda>b. None" False
      "\<lparr>results = [], outputs = [], effects = []\<rparr>"] l e
  show ?thesis by (simp add: logged_name_def ustr_def)
qed

section \<open>Collisions\<close>

lemma unique_name_fresh: "unique_name existing new_name final i \<notin> set existing"
proof (induction existing new_name final i rule: unique_name.induct)
  case (1 existing new_name final i)
  then show ?case by (simp add: unique_name.simps[of existing new_name final i])
qed

lemma unique_name_free: "final \<notin> set existing \<Longrightarrow> unique_name existing new_name final i = final"
  by (simp add: unique_name.simps[of existing new_name final i])

lemma unique_name_least:
  "final \<in> set existing \<Longrightarrow>
     \<exists>N \<ge> i. unique_name existing new_name final i = suffixed new_name N
        \<and> suffixed new_name N \<notin> set existing
        \<and> (\<forall>j. i \<le> j \<and> j < N \<longrightarrow> suffixed new_name j \<in> set existing)"
proof (induction existing new_name final i rule: unique_name.induct)
  case (1 existing new_name final i)
  have step: "unique_name existing new_name final i
      = unique_name existing new_name (suffixed new_name i) (i + 1)"
    using "1.prems" by (simp add: unique_name.simps[of existing new_name final i])
  show ?case
  proof (cases "suffixed new_name i \<in> set existing")
    case False
    then have "unique_name existing new_name final i = suffixed new_name i"
      unfolding step by (rule unique_name_free)
    with False show ?thesis by (intro exI[of _ i]) auto
  next
    case True
    from "1.IH"[OF "1.prems" True] obtain N where
      N: "i + 1 \<le> N" "unique_name existing new_name (suffixed new_name i) (i + 1) = suffixed new_name N"
        "suffixed new_name N \<notin> set existing"
        "\<forall>j. i + 1 \<le> j \<and> j < N \<longrightarrow> suffixed new_name j \<in> set existing"
      by blast
    have "\<forall>j. i \<le> j \<and> j < N \<longrightarrow> suffixed new_name j \<in> set existing"
    proof (intro allI impI)
      fix j assume "i \<le> j \<and> j < N"
      then have "j = i \<or> (i + 1 \<le> j \<and> j < N)" by auto
      with True N(4) show "suffixed new_name j \<in> set existing" by auto
    qed
    with N show ?thesis unfolding step by (intro exI[of _ N]) simp
  qed
qed

lemma rfind_absent: "c \<notin> set p \<Longrightarrow> rfind c p = - 1"
  by (simp add: rfind_def)

lemma rfind_pdf: "rfind 46 (base @ ustr ''.pdf'') = int (length base)"
  by (simp add: rfind_def ustr_def)

lemma splitext_pdf:
  assumes "47 \<notin> set base" and "\<exists>c \<in> set base. c \<noteq> 46"
  shows "splitext (base @ ustr ''.pdf'') = (base, ustr ''.pdf'')"
proof -
  have "47 \<notin> set (base @ ustr ''.pdf'')" using assms(1) by (simp add: ustr_def)
  then have sep: "rfind 47 (base @ ustr ''.pdf'') = - 1" by (rule rfind_absent)
  from assms(2) have "list_ex (\<lambda>x. x \<noteq> 46) base" by (simp add: list_ex_iff)
  then show ?thesis
    unfolding splitext_def by (simp add: sep rfind_pdf[simplified])
qed

lemma build_new_name_shape:
  assumes "build_new_name U ref seri pretty_slash = Some name"
  shows "\<exists>base. name = base @ ustr ''.pdf'' \<and> splitext name = (base, ustr ''.pdf'')"
proof -
  from assms obtain r s where rs: "ref = Some r" "seri = Some s" "r \<noteq> []" "s \<noteq> []"
    by (auto simp: build_new_name_def truthy_def split: option.splits if_splits)
  let ?base = "sanitize U (invoice_ref_to_filename (sanitize U r) pretty_slash @ ustr '' - '' @ s)"
  from build_new_name_Some[OF rs(3,4), of U pretty_slash] assms rs
  have name: "name = ?base @ ustr ''.pdf''" by simp
  have "47 \<in> set illegal_chars" by (simp add: illegal_chars_def)
  with sanitize_chars[of 47 U] have slash: "47 \<notin> set ?base" by blast
  have "45 \<in> set (invoice_ref_to_filename (sanitize U r) pretty_slash @ ustr '' - '' @ s)"
    by (simp add: ustr_def)
  from sanitize_keeps[OF this not_isspace_dash dash_legal, of U]
  have "\<exists>c \<in> set ?base. c \<noteq> 46" by (intro bexI[of _ 45]) auto
  from splitext_pdf[OF slash this] name show ?thesis by simp
qed

lemma process_one_distinct:
  "distinct (map fst (outputs st)) \<Longrightarrow>
     distinct (map fst (outputs (process_one U read_pdf dry_run st fs)))"
  using unique_name_fresh[of "map fst (outputs st)"]
  by (auto simp: process_one_def Let_def split: option.splits prod.splits)

lemma process_loop_distinct:
  "distinct (map fst (outputs st)) \<Longrightarrow>
     distinct (map fst (outputs (process_loop U read_pdf dry_run st fss)))"
  by (induction fss arbitrary: st) (auto intro: process_one_distinct)


lemma process_one_success:
  assumes "endswith (str_lower U (logged_name fs)) (ustr ''.pdf'')" and "stream fs \<noteq> []"
    and "build_new_name U (fst (parse_pdf_fields U read_pdf (stream fs)))
           (snd (parse_pdf_fields U read_pdf (stream fs))) True = Some name"
  shows "results (process_one U read_pdf dry_run st fs)
      = results st @ [[9989] @ ustr '' '' @ logged_name fs @ [32, 8594, 32]
                      @ unique_name (map fst (outputs st)) name name 1]"
    and "outputs (process_one U read_pdf dry_run st fs)
      = (if dry_run then outputs st
         else outputs st @ [(unique_name (map fst (outputs st)) name name 1, stream fs)])"
proof -
  from build_new_name_shape[OF assms(3)] have ne: "name \<noteq> []" by (auto simp: ustr_def)
  obtain ref seri where p: "parse_pdf_fields U read_pdf (stream fs) = (ref, seri)"
    by (cases "parse_pdf_fields U read_pdf (stream fs)")
  with assms(3) have b: "build_new_name U ref seri True = Some name" by simp
  from assms(1,2) p b ne
  show "results (process_one U read_pdf dry_run st fs)
      = results st @ [[9989] @ ustr '' '' @ logged_name fs @ [32, 8594, 32]
                      @ unique_name (map fst (outputs st)) name name 1]"
    by (simp add: process_one_def logged_name_def Let_def)
  from assms(1,2) p b ne
  show "outputs (process_one U read_pdf dry_run st fs)
      = (if dry_run then outputs st
         else outputs st @ [(unique_name (map fst (outputs st)) name name 1, stream fs)])"
    by (simp add: process_one_def logged_name_def Let_def)
qed

text \<open>
  Claim C4: the names in the outputs of a batch are pairwise distinct. When the name
  composed for a record is already among the outputs, the record is logged, and without
  \<open>dry_run\<close> added to the outputs, under the name with \<open> (N)\<close> before \<open>.pdf\<close>, for the
  first \<open>N\<close> from 1 on that gives a name not among the outputs.
\<close>

theorem output_names_distinct:
  "distinct (map fst (snd (process_files U read_pdf fss dry_run))) \<and>
   (\<forall>st fs name.
      endswith (str_lower U (logged_name fs)) (ustr ''.pdf'') \<and> stream fs \<noteq> [] \<and>
      build_new_name U (fst (parse_pdf_fields U read_pdf (stream fs)))
        (snd (parse_pdf_fields U read_pdf (stream fs))) True = Some name \<and>
      name \<in> fst ` set (outputs st) \<longrightarrow>
      (\<exists>base N. name = base @ ustr ''.pdf'' \<and> 1 \<le> N \<and>
         base @ ustr '' ('' @ str_nat N @ ustr '').pdf'' \<notin> fst ` set (outputs st) \<and>
         (\<forall>j. 1 \<le> j \<and> j < N \<longrightarrow>
            base @ ustr '' ('' @ str_nat j @ ustr '').pdf'' \<in> fst ` set (outputs st)) \<and>
         results (process_one U read_pdf dry_run st fs)
           = results st @ [[9989] @ ustr '' '' @ logged_name fs @ [32, 8594, 32]
                           @ base @ ustr '' ('' @ str_nat N @ ustr '').pdf''] \<and>
         outputs (process_one U read_pdf False st fs)
           = outputs st @ [(base @ ustr '' ('' @ str_nat N @ ustr '').pdf'', stream fs)]))"
proof (intro conjI allI impI)
  show "distinct (map fst (snd (process_files U read_pdf fss dry_run)))"
    by (simp add: process_files_def run_batch_def Let_def process_loop_distinct)
next
  fix st :: batch and fs :: file_storage and name :: ustring
  assume a: "endswith (str_lower U (logged_name fs)) (ustr ''.pdf'') \<and> stream fs \<noteq> [] \<and>
      build_new_name U (fst (parse_pdf_fields U read_pdf (stream fs)))
        (snd (parse_pdf_fields U read_pdf (stream fs))) True = Some name \<and>
      name \<in> fst ` set (outputs st)"
  then have pdf: "endswith (str_lower U (logged_name fs)) (ustr ''.pdf'')"
    and ne: "stream fs \<noteq> []"
    and b: "build_new_name U (fst (parse_pdf_fields U read_pdf (stream fs)))
        (snd (parse_pdf_fields U read_pdf (stream fs))) True = Some name"
    and coll: "name \<in> set (map fst (outputs st))"
    by auto
  from build_new_name_shape[OF b] obtain base where
    base: "name = base @ ustr ''.pdf''" "splitext name = (base, ustr ''.pdf'')" by blast
  then have suf: "suffixed name j = base @ ustr '' ('' @ str_nat j @ ustr '').pdf''" for j
    by (simp add: suffixed_def)
  from unique_name_least[OF coll, of 1 name] obtain N where
    N: "1 \<le> N" "unique_name (map fst (outputs st)) name name 1 = suffixed name N"
      "suffixed name N \<notin> set (map fst (outputs st))"
      "\<forall>j. 1 \<le> j \<and> j < N \<longrightarrow> suffixed name j \<in> set (map fst (outputs st))"
    by blast
  from process_one_success[OF pdf ne b, of dry_run st] process_one_success[OF pdf ne b, of False st]
    N base(1)
  show "\<exists>base N. name = base @ ustr ''.pdf'' \<and> 1 \<le> N \<and>
         base @ ustr '' ('' @ str_nat N @ ustr '').pdf'' \<notin> fst ` set (outputs st) \<and>
         (\<forall>j. 1 \<le> j \<and> j < N \<longrightarrow>
            base @ ustr '' ('' @ str_nat j @ ustr '').pdf'' \<in> fst ` set (outputs st)) \<and>
         results (process_one U read_pdf dry_run st fs)
           = results st @ [[9989] @ ustr '' '' @ logged_name fs @ [32, 8594, 32]
                           @ base @ ustr '' ('' @ str_nat N @ ustr '').pdf''] \<and>
         outputs (process_one U read_pdf False st fs)
           = outputs st @ [(base @ ustr '' ('' @ str_nat N @ ustr '').pdf'', stream fs)]"
    unfolding suf by (intro exI[of _ base] exI[of _ N]) simp
qed

section \<open>The end-to-end case\<close>

lemma ascii_conformantD:
  assumes "ascii_conformant U"
  shows "c < 128 \<Longrightarrow> is_decimal U c = ascii_digit c"
    and "c < 128 \<Longrightarrow> is_word U c = ascii_word c"
    and "p < 128 \<Longrightarrow> c < 128 \<Longrightarrow> ci_match U p c = (ascii_lower c = ascii_lower p)"
    and "list_all (\<lambda>c. c < 128) s \<Longrightarrow> str_upper U s = map ascii_upper s"
    and "list_all (\<lambda>c. c < 128) s \<Longrightarrow> str_lower U s = map ascii_lower s"
  using assms by (auto simp: ascii_conformant_def)

lemma ascii_conformant_ascii_tables: "ascii_conformant ascii_tables"
  by (simp add: ascii_conformant_def ascii_tables_def)

lemma normalize_example:
  "normalize_for_search U example_text
     = ustr ''Kode dan Nomor Seri Faktur Pajak: 123.456-789 (Referensi: INV/2025/09/0654)''"
  by (simp add: normalize_eq example_text_def ustr_def isspace_def)

lemma seri_example:
  assumes "ascii_conformant U"
  shows "extract_seri U (ustr ''Kode dan Nomor Seri Faktur Pajak: 123.456-789 (Referensi: INV/2025/09/0654)'')
     = Some (ustr ''123456789'')"
  by (simp add: extract_seri_def re_search_def first_match.simps RE_SERI_def seqs_def lits_i_def
      ustr_def isspace_def ascii_conformantD[OF assms] ascii_lower_def ascii_digit_def
      group_text_def py_sub_delete replace_char_Nil sanitize_eq strip_def illegal_chars_def)

lemma ref_example:
  assumes "ascii_conformant U"
  shows "extract_ref U (ustr ''Kode dan Nomor Seri Faktur Pajak: 123.456-789 (Referensi: INV/2025/09/0654)'')
     = Some (ustr ''INV/2025/09/0654'')"
  by (simp add: extract_ref_def re_search_def first_match.simps RE_INV_STRICT_def seqs_def lits_i_def
      ustr_def at_boundary_def ascii_conformantD[OF assms] ascii_lower_def ascii_digit_def
      ascii_word_def ascii_upper_def)

lemma parse_example:
  assumes "ascii_conformant U"
  shows "parse_text U example_text = (Some (ustr ''INV 2025 09 0654''), Some (ustr ''123456789''))"
  unfolding parse_text_def normalize_example Let_def seri_example[OF assms] ref_example[OF assms]
  by (simp add: or_none_def truthy_def invoice_ref_to_filename_def replace_char_def
      sanitize_eq strip_def illegal_chars_def ustr_def isspace_def)

lemma name_example:
  "build_new_name U (Some (ustr ''INV 2025 09 0654'')) (Some (ustr ''123456789'')) True
     = Some (ustr ''INV 2025 09 0654 - 123456789.pdf'')"
  by (simp add: build_new_name_def truthy_def invoice_ref_to_filename_def replace_char_def
      sanitize_eq strip_def illegal_chars_def ustr_def isspace_def)


lemma parse_pdf_example:
  assumes "ascii_conformant U" and "read_pdf b = Some [Some example_text]"
  shows "parse_pdf_fields U read_pdf b = (Some (ustr ''INV 2025 09 0654''), Some (ustr ''123456789''))"
  using assms(2) by (simp add: parse_pdf_fields_def parse_example[OF assms(1)])

lemma unique_example:
  "unique_name [ustr ''INV 2025 09 0654 - 123456789.pdf''] (ustr ''INV 2025 09 0654 - 123456789.pdf'')
     (ustr ''INV 2025 09 0654 - 123456789.pdf'') 1
   = ustr ''INV 2025 09 0654 - 123456789 (1).pdf''"
  by (simp add: unique_name.simps suffixed_def splitext_def rfind_def str_nat.simps ustr_def)

text \<open>
  Claim C1, on the code: for a PDF whose one page reads as the two phrases of the case,
  the reference returned is \<open>INV 2025 09 0654\<close>, with spaces where the claim has
  full-width slashes, the serial number is \<open>123456789\<close>, and the name built from them
  is \<open>INV 2025 09 0654 - 123456789.pdf\<close>. \<open>_sanitize\<close> has replaced the slashes by
  spaces before \<open>_invoice_ref_to_filename\<close> looks for them.
\<close>

theorem example_pipeline:
  assumes "ascii_conformant U" and "read_pdf b = Some [Some example_text]"
  shows "parse_pdf_fields U read_pdf b = (Some (ustr ''INV 2025 09 0654''), Some (ustr ''123456789'')) \<and>
    build_new_name U (fst (parse_pdf_fields U read_pdf b)) (snd (parse_pdf_fields U read_pdf b)) True
      = Some (ustr ''INV 2025 09 0654 - 123456789.pdf'') \<and>
    fst (parse_pdf_fields U read_pdf b)
      \<noteq> Some (invoice_ref_to_filename (ustr ''INV/2025/09/0654'') True)"
  unfolding parse_pdf_example[of U read_pdf b, OF assms]
  by (simp add: name_example)
    (simp add: invoice_ref_to_filename_def replace_char_def ustr_def fullwidth_slash_def)

theorem example_pipeline_witness:
  "ascii_conformant ascii_tables \<and>
   parse_pdf_fields ascii_tables (\<lambda>b. Some [Some example_text]) [1]
     = (Some (ustr ''INV 2025 09 0654''), Some (ustr ''123456789''))"
  using example_pipeline[OF ascii_conformant_ascii_tables, of "\<lambda>b. Some [Some example_text]" "[1]"]
    ascii_conformant_ascii_tables
  by simp

text \<open>
  Claim C9: the log depends on \<open>dry_run\<close>. Two files that read as the text of the
  end-to-end case compose the same name; with \<open>dry_run\<close> both are logged under that name,
  without it the second is logged under the name with \<open> (1)\<close>.
\<close>

theorem dry_run_changes_log:
  assumes "ascii_conformant U" and "read_pdf d = Some [Some example_text]" and "d \<noteq> []"
  shows "fst (process_files U read_pdf
            [\<lparr>filename = Some (ustr ''a.pdf''), stream = d\<rparr>,
             \<lparr>filename = Some (ustr ''b.pdf''), stream = d\<rparr>] True)
      = [[9989] @ ustr '' a.pdf '' @ [8594] @ ustr '' INV 2025 09 0654 - 123456789.pdf'',
         [9989] @ ustr '' b.pdf '' @ [8594] @ ustr '' INV 2025 09 0654 - 123456789.pdf''] \<and>
    fst (process_files U read_pdf
            [\<lparr>filename = Some (ustr ''a.pdf''), stream = d\<rparr>,
             \<lparr>filename = Some (ustr ''b.pdf''), stream = d\<rparr>] False)
      = [[9989] @ ustr '' a.pdf '' @ [8594] @ ustr '' INV 2025 09 0654 - 123456789.pdf'',
         [9989] @ ustr '' b.pdf '' @ [8594] @ ustr '' INV 2025 09 0654 - 123456789 (1).pdf'']"
proof -
  let ?f1 = "\<lparr>filename = Some (ustr ''a.pdf''), stream = d\<rparr>"
  let ?f2 = "\<lparr>filename = Some (ustr ''b.pdf''), stream = d\<rparr>"
  let ?st0 = "\<lparr>results = [], outputs = [], effects = []\<rparr>"
  let ?name = "ustr ''INV 2025 09 0654 - 123456789.pdf''"
  have pdf1: "endswith (str_lower U (logged_name ?f1)) (ustr ''.pdf'')"
    by (simp add: logged_name_def ascii_conformantD(5)[OF assms(1)] ustr_def ascii_lower_def
        endswith_def suffix_to_prefix)
  have pdf2: "endswith (str_lower U (logged_name ?f2)) (ustr ''.pdf'')"
    by (simp add: logged_name_def ascii_conformantD(5)[OF assms(1)] ustr_def ascii_lower_def
        endswith_def suffix_to_prefix)
  have b1: "build_new_name U (fst (parse_pdf_fields U read_pdf (stream ?f1)))
      (snd (parse_pdf_fields U read_pdf (stream ?f1))) True = Some ?name"
    by (simp add: parse_pdf_example[of U read_pdf d, OF assms(1,2)] name_example)
  have b2: "build_new_name U (fst (parse_pdf_fields U read_pdf (stream ?f2)))
      (snd (parse_pdf_fields U read_pdf (stream ?f2))) True = Some ?name"
    by (simp add: parse_pdf_example[of U read_pdf d, OF assms(1,2)] name_example)
  have ne1: "stream ?f1 \<noteq> []" and ne2: "stream ?f2 \<noteq> []" using assms(3) by simp_all
  have free: "unique_name [] ?name ?name 1 = ?name" by (rule unique_name_free) simp
  have r1: "results (process_one U read_pdf dry ?st0 ?f1)
      = [[9989] @ ustr '' a.pdf '' @ [8594] @ ustr '' INV 2025 09 0654 - 123456789.pdf'']" for dry
    using process_one_success(1)[OF pdf1 ne1 b1, of dry ?st0] free
    by (simp add: logged_name_def ustr_def)
  have o1: "outputs (process_one U read_pdf dry ?st0 ?f1) = (if dry then [] else [(?name, d)])" for dry
    using process_one_success(2)[OF pdf1 ne1 b1, of dry ?st0] free by simp
  have dry: "results (process_one U read_pdf True (process_one U read_pdf True ?st0 ?f1) ?f2)
      = [[9989] @ ustr '' a.pdf '' @ [8594] @ ustr '' INV 2025 09 0654 - 123456789.pdf'',
         [9989] @ ustr '' b.pdf '' @ [8594] @ ustr '' INV 2025 09 0654 - 123456789.pdf'']"
    unfolding process_one_success(1)[OF pdf2 ne2 b2, of True "process_one U read_pdf True ?st0 ?f1"]
    by (simp only: r1 o1 if_True list.map free logged_name_def) (simp add: ustr_def)
  have wet: "results (process_one U read_pdf False (process_one U read_pdf False ?st0 ?f1) ?f2)
      = [[9989] @ ustr '' a.pdf '' @ [8594] @ ustr '' INV 2025 09 0654 - 123456789.pdf'',
         [9989] @ ustr '' b.pdf '' @ [8594] @ ustr '' INV 2025 09 0654 - 123456789 (1).pdf'']"
    unfolding process_one_success(1)[OF pdf2 ne2 b2, of False "process_one U read_pdf False ?st0 ?f1"]
    by (simp only: r1 o1 if_False list.map fst_conv unique_example logged_name_def)
      (simp add: ustr_def)
  from dry wet show ?thesis by (simp add: process_files_def run_batch_def Let_def)
qed

theorem dry_run_changes_log_witness:
  "ascii_conformant ascii_tables \<and>
   fst (process_files ascii_tables (\<lambda>b. Some [Some example_text])
          [\<lparr>filename = Some (ustr ''a.pdf''), stream = [1]\<rparr>,
           \<lparr>filename = Some (ustr ''b.pdf''), stream = [1]\<rparr>] True) ! 1
     = [9989] @ ustr '' b.pdf '' @ [8594] @ ustr '' INV 2025 09 0654 - 123456789.pdf'' \<and>
   fst (process_files ascii_tables (\<lambda>b. Some [Some example_text])
          [\<lparr>filename = Some (ustr ''a.pdf''), stream = [1]\<rparr>,
           \<lparr>filename = Some (ustr ''b.pdf''), stream = [1]\<rparr>] False) ! 1
     = [9989] @ ustr '' b.pdf '' @ [8594] @ ustr '' INV 2025 09 0654 - 123456789 (1).pdf''"
  using dry_run_changes_log[OF ascii_conformant_ascii_tables, of "\<lambda>b. Some [Some example_text]" "[1]"]
    ascii_conformant_ascii_tables
  by simp


theorem output_names_distinct_witness:
  "endswith (str_lower ascii_tables (logged_name \<lparr>filename = Some (ustr ''b.pdf''), stream = [2]\<rparr>))
     (ustr ''.pdf'') \<and>
   stream \<lparr>filename = Some (ustr ''b.pdf''), stream = [2]\<rparr> \<noteq> [] \<and>
   build_new_name ascii_tables
     (fst (parse_pdf_fields ascii_tables (\<lambda>b. Some [Some example_text]) [2]))
     (snd (parse_pdf_fields ascii_tables (\<lambda>b. Some [Some example_text]) [2])) True
     = Some (ustr ''INV 2025 09 0654 - 123456789.pdf'') \<and>
   ustr ''INV 2025 09 0654 - 123456789.pdf''
     \<in> fst ` set (outputs \<lparr>results = [], outputs = [(ustr ''INV 2025 09 0654 - 123456789.pdf'', [1])],
                            effects = []\<rparr>) \<and>
   outputs (process_one ascii_tables (\<lambda>b. Some [Some example_text]) False
      \<lparr>results = [], outputs = [(ustr ''INV 2025 09 0654 - 123456789.pdf'', [1])], effects = []\<rparr>
      \<lparr>filename = Some (ustr ''b.pdf''), stream = [2]\<rparr>)
     = [(ustr ''INV 2025 09 0654 - 123456789.pdf'', [1]),
        (ustr ''INV 2025 09 0654 - 123456789 (1).pdf'', [2])]"
proof -
  let ?rd = "\<lambda>b :: bytes. Some [Some example_text]"
  let ?fs = "\<lparr>filename = Some (ustr ''b.pdf''), stream = [2]\<rparr>"
  let ?name = "ustr ''INV 2025 09 0654 - 123456789.pdf''"
  let ?st = "\<lparr>results = [], outputs = [(?name, [1])], effects = []\<rparr>"
  have h1: "endswith (str_lower ascii_tables (logged_name ?fs)) (ustr ''.pdf'')"
    by (simp add: logged_name_def ascii_tables_def ustr_def ascii_lower_def endswith_def
        suffix_to_prefix)
  have h2: "stream ?fs \<noteq> []" by simp
  have h3: "build_new_name ascii_tables (fst (parse_pdf_fields ascii_tables ?rd (stream ?fs)))
      (snd (parse_pdf_fields ascii_tables ?rd (stream ?fs))) True = Some ?name"
    by (simp add: parse_pdf_example[of ascii_tables ?rd "[2]", OF ascii_conformant_ascii_tables]
        name_example)
  have h4: "?name \<in> fst ` set (outputs ?st)" by simp
  from output_names_distinct[of ascii_tables ?rd "[]" False] h1 h2 h3 h4
  obtain base N where
    bn: "?name = base @ ustr ''.pdf''" "1 \<le> N"
      "\<forall>j. 1 \<le> j \<and> j < N \<longrightarrow> base @ ustr '' ('' @ str_nat j @ ustr '').pdf'' \<in> fst ` set (outputs ?st)"
      "outputs (process_one ascii_tables ?rd False ?st ?fs)
         = outputs ?st @ [(base @ ustr '' ('' @ str_nat N @ ustr '').pdf'', stream ?fs)]"
    by blast
  have "?name = ustr ''INV 2025 09 0654 - 123456789'' @ ustr ''.pdf''" by (simp add: ustr_def)
  with bn(1) have base: "base = ustr ''INV 2025 09 0654 - 123456789''" by simp
  have N: "N = 1"
  proof (rule ccontr)
    assume "N \<noteq> 1"
    with bn(2) have "1 \<le> (1::nat) \<and> 1 < N" by simp
    with bn(3) have "base @ ustr '' ('' @ str_nat 1 @ ustr '').pdf'' \<in> fst ` set (outputs ?st)"
      by blast
    then show False unfolding base by (simp add: ustr_def str_nat.simps)
  qed
  have "base @ ustr '' ('' @ str_nat N @ ustr '').pdf'' = ustr ''INV 2025 09 0654 - 123456789 (1).pdf''"
    unfolding base N by (simp add: ustr_def str_nat.simps)
  with bn(4) have "outputs (process_one ascii_tables ?rd False ?st ?fs)
      = [(?name, [1]), (ustr ''INV 2025 09 0654 - 123456789 (1).pdf'', [2])]"
    by simp
  with h1 h2 h3[simplified] h4 show ?thesis by simp
qed

end
